theory Spec2Isabelle
  imports Complex_Main
begin

section \<open>Data model\<close>

text \<open>
  The OpenCL peridynamics model of \<^verbatim>\<open>peridynamics/model_cl.py\<close>. A numpy array of
  shape \<open>(k, 3)\<close> is a list of triples, a per-node array is a list with one entry per node,
  the neighbour list is one row of node indices per node. Double-precision values are
  idealised as real numbers; no statement below depends on rounding. A device buffer holds
  the same kind of value as the host array it is copied from or to. Arrays are values:
  the integrator and the boundary function are taken to return arrays that share no
  memory with the host \<open>force\<close> array, which the code overwrites in place at every step.
\<close>

type_synonym vec3 = "real \<times> real \<times> real"
type_synonym field = "vec3 list"
type_synonym path = "string list"

datatype error =
    ContextError
  | TypeError string
  | ValueError string
  | ZeroDivisionError
  | Raised string

text \<open>
  The value bound to the \<open>context\<close> keyword, or returned by \<open>get_context()\<close>: \<open>None\<close>, a
  pyopencl context with its device list, or any other object.
\<close>

datatype 'dev pyobj = PyNone | Context "'dev list" | Other

text \<open>The attributes that the base class \<open>Model\<close> provides and \<open>ModelCL\<close> reads.\<close>

record model =
  nnodes :: nat
  coords :: field
  volume :: "real list"
  family :: "int list"
  max_neighbours :: int
  bond_stiffness :: real
  critical_strain :: real
  initial_connectivity :: "int list list \<times> int list"

text \<open>
  The three kernels of the built program. Each takes the global work size and the buffers
  of the Python call, and returns the contents of the buffers that it writes.
\<close>

record program =
  damage :: "nat \<Rightarrow> int list \<Rightarrow> int list \<Rightarrow> real list \<Rightarrow> real list"
  break_bonds :: "nat \<Rightarrow> field \<Rightarrow> field \<Rightarrow> int list list \<Rightarrow> int list \<Rightarrow> int \<Rightarrow> real
                  \<Rightarrow> int list list \<times> int list"
  bond_force :: "nat \<Rightarrow> field \<Rightarrow> field \<Rightarrow> int list list \<Rightarrow> int list \<Rightarrow> int \<Rightarrow> real list \<Rightarrow> real
                 \<Rightarrow> field \<Rightarrow> field"

record 'dev modelcl = model +
  cl_context :: "'dev list"
  damage_kernel :: "nat \<Rightarrow> int list \<Rightarrow> int list \<Rightarrow> real list \<Rightarrow> real list"
  break_bonds_kernel :: "nat \<Rightarrow> field \<Rightarrow> field \<Rightarrow> int list list \<Rightarrow> int list \<Rightarrow> int \<Rightarrow> real
                         \<Rightarrow> int list list \<times> int list"
  bond_force_kernel :: "nat \<Rightarrow> field \<Rightarrow> field \<Rightarrow> int list list \<Rightarrow> int list \<Rightarrow> int \<Rightarrow> real list
                        \<Rightarrow> real \<Rightarrow> field \<Rightarrow> field"

section \<open>Construction\<close>

definition fp64_message :: string where
  "fp64_message = ''device 0 of context must support doublefloating-point precision''"

definition build_kernels :: "model \<Rightarrow> 'dev list \<Rightarrow> program \<Rightarrow> 'dev modelcl" where
  "build_kernels base ctx prog =
     model.extend base
       \<lparr> cl_context = ctx,
         damage_kernel = damage prog,
         break_bonds_kernel = break_bonds prog,
         bond_force_kernel = bond_force prog \<rparr>"

text \<open>
  \<open>ModelCL.__init__\<close>. The collaborators that are not part of this file of the repository
  are parameters: \<open>super_init\<close> is the outcome of \<open>Model.__init__(*args, **kwargs)\<close>,
  \<open>get_context\<close> the value returned by \<open>get_context()\<close>, \<open>double_fp_support\<close> the
  capability test on a device, and \<open>build\<close> the outcome of compiling \<open>kernel_source\<close> for a
  context. Indexing the device list of a context raises when the list is empty.
\<close>

definition ModelCL_init ::
  "(error + model) \<Rightarrow> 'dev pyobj \<Rightarrow> ('dev \<Rightarrow> bool) \<Rightarrow> ('dev list \<Rightarrow> error + program)
   \<Rightarrow> 'dev pyobj \<Rightarrow> error + 'dev modelcl" where
  "ModelCL_init super_init get_context double_fp_support build ctx_arg =
     (case super_init of
        Inl e \<Rightarrow> Inl e
      | Inr base \<Rightarrow>
          (case ctx_arg of
             PyNone \<Rightarrow>
               (case get_context of
                  Context devs \<Rightarrow>
                    (case build devs of
                       Inl e \<Rightarrow> Inl e
                     | Inr prog \<Rightarrow> Inr (build_kernels base devs prog))
                | _ \<Rightarrow> Inl ContextError)
           | Context devs \<Rightarrow>
               (case devs of
                  [] \<Rightarrow> Inl (Raised ''IndexError'')
                | d # _ \<Rightarrow>
                    if \<not> double_fp_support d then Inl (ValueError fp64_message)
                    else (case build devs of
                            Inl e \<Rightarrow> Inl e
                          | Inr prog \<Rightarrow> Inr (build_kernels base devs prog)))
           | Other \<Rightarrow> Inl (TypeError ''context must be a pyopencl Context object'')))"

section \<open>Kernel dispatch methods\<close>

text \<open>
  \<open>_damage\<close>, \<open>_break_bonds\<close> and \<open>_bond_force\<close>: each dispatches its kernel over
  \<open>nnodes\<close> work items and waits for the queue. \<open>_bond_force\<close> ignores its
  \<open>max_neighbours\<close> and \<open>bond_stiffness\<close> arguments and reads the attributes instead.
\<close>

definition ModelCL_damage ::
  "'dev modelcl \<Rightarrow> int list \<Rightarrow> int list \<Rightarrow> real list \<Rightarrow> real list" where
  "ModelCL_damage m n_neigh_b family_b damage_b =
     damage_kernel m (nnodes m) n_neigh_b family_b damage_b"

definition ModelCL_break_bonds ::
  "'dev modelcl \<Rightarrow> field \<Rightarrow> field \<Rightarrow> int list list \<Rightarrow> int list \<Rightarrow> int \<Rightarrow> real
   \<Rightarrow> int list list \<times> int list" where
  "ModelCL_break_bonds m r_b r0_b nlist_b n_neigh_b max_nb crit =
     break_bonds_kernel m (nnodes m) r_b r0_b nlist_b n_neigh_b max_nb crit"

definition ModelCL_bond_force ::
  "'dev modelcl \<Rightarrow> field \<Rightarrow> field \<Rightarrow> int list list \<Rightarrow> int list \<Rightarrow> int \<Rightarrow> real list \<Rightarrow> real
   \<Rightarrow> field \<Rightarrow> field" where
  "ModelCL_bond_force m r_b r0_b nlist_b n_neigh_b max_nb volume_b stiffness force_b =
     bond_force_kernel m (nnodes m) r_b r0_b nlist_b n_neigh_b (max_neighbours m)
       volume_b (bond_stiffness m) force_b"

section \<open>Host-side helpers\<close>

definition vadd :: "vec3 \<Rightarrow> vec3 \<Rightarrow> vec3" where
  "vadd a b = (fst a + fst b, fst (snd a) + fst (snd b), snd (snd a) + snd (snd b))"

definition broadcast_message :: string where
  "broadcast_message = ''operands could not be broadcast together''"

text \<open>
  numpy addition of two arrays of shapes \<open>(k, 3)\<close> and \<open>(l, 3)\<close>: elementwise when
  \<open>k = l\<close>, a single row is broadcast over the other operand, any other pair of shapes
  raises.
\<close>

definition np_add :: "field \<Rightarrow> field \<Rightarrow> error + field" where
  "np_add a b =
     (if length a = length b then Inr (map2 vadd a b)
      else if length b = 1 then Inr (map (\<lambda>x. vadd x (hd b)) a)
      else if length a = 1 then Inr (map (\<lambda>y. vadd (hd a) y) b)
      else Inl (ValueError broadcast_message))"

text \<open>Python's \<open>%\<close> on integers: floored, and an error for a zero divisor.\<close>

definition py_mod :: "int \<Rightarrow> int \<Rightarrow> error + int" where
  "py_mod a b = (if b = 0 then Inl ZeroDivisionError else Inr (a mod b))"

text \<open>\<open>range(a, b)\<close>, which \<open>trange\<close> iterates with a progress bar.\<close>

definition py_range :: "int \<Rightarrow> int \<Rightarrow> int list" where
  "py_range a b = [a..b - 1]"

text \<open>The decimal text of an integer, as an f-string formats it.\<close>

definition digit_char :: "nat \<Rightarrow> char" where
  "digit_char d = ''0123456789'' ! d"

function str_nat :: "nat \<Rightarrow> string" where
  "str_nat n = (if n < 10 then [digit_char n] else str_nat (n div 10) @ [digit_char (n mod 10)])"
  by pat_completeness auto
termination
  by (relation "measure id") auto

declare str_nat.simps [simp del]

definition str_int :: "int \<Rightarrow> string" where
  "str_int i = (if i < 0 then CHR ''-'' # str_nat (nat (- i)) else str_nat (nat i))"

text \<open>
  The contents of freshly allocated memory that nothing has written yet: the arrays made by
  \<open>np.empty\<close> and \<open>np.empty_like\<close>, and the device buffers created without
  \<open>COPY_HOST_PTR\<close>. The allocation fixes the size; the contents are whatever the memory
  held.
\<close>

record uninit =
  empty_damage :: "nat \<Rightarrow> real"
  empty_force :: "nat \<Rightarrow> vec3"
  fresh_damage_d :: "nat \<Rightarrow> real"
  fresh_force_d :: "nat \<Rightarrow> vec3"

definition np_empty :: "(nat \<Rightarrow> 'a) \<Rightarrow> nat \<Rightarrow> 'a list" where
  "np_empty g n = map g [0..<n]"

type_synonym integrator = "field \<Rightarrow> field \<Rightarrow> field"
type_synonym 'dev boundary_function = "'dev modelcl \<Rightarrow> field \<Rightarrow> int \<Rightarrow> field"
type_synonym connectivity = "int list list \<times> int list"

text \<open>
  Modelled from the spec: \<open>Model._simulate_initialise\<close> is a method of the base class,
  which is not among the source files. The spec gives its defaults: the boundary function
  "defaults to identity if unset", the displacement is "optional initial displacement,
  default zero", and for the connectivity "if omitted, use the connectivity captured at
  model construction". The spec names no default for the write path ("required if
  \<open>write\<close> set"); the model uses the empty relative path when none is given.
\<close>

definition simulate_initialise ::
  "'dev modelcl \<Rightarrow> integrator \<Rightarrow> 'dev boundary_function option \<Rightarrow> field option
   \<Rightarrow> connectivity option \<Rightarrow> path option
   \<Rightarrow> int list list \<times> int list \<times> field \<times> 'dev boundary_function \<times> path" where
  "simulate_initialise m integ bf u0 conn wp =
     (let bf' = (case bf of None \<Rightarrow> (\<lambda>_ u _. u) | Some f \<Rightarrow> f);
          u' = (case u0 of None \<Rightarrow> replicate (nnodes m) (0, 0, 0) | Some v \<Rightarrow> v);
          (nl, nn) = (case conn of None \<Rightarrow> initial_connectivity m | Some c \<Rightarrow> c);
          wp' = (case wp of None \<Rightarrow> [] | Some p \<Rightarrow> p)
      in (nl, nn, u', bf', wp'))"

section \<open>The simulation run\<close>

text \<open>
  What the run does to the outside, in order: kernel dispatches (with the coordinate
  buffer they are given), device-to-host copies, collaborator calls (with their
  arguments), coordinate uploads and mesh files.
\<close>

datatype event =
    BondForce field
  | CopyForce
  | Integrate field field
  | Boundary field int
  | RefreshCoords field
  | BreakBonds field
  | Damage
  | CopyDamage
  | WriteMesh path
  | CopyNlist
  | CopyNNeigh

text \<open>
  The local variables of \<open>simulate\<close>: the host arrays \<open>u\<close>, \<open>force\<close>, \<open>damage\<close>,
  \<open>nlist\<close>, \<open>n_neigh\<close> (prefixed \<open>h_\<close>), the device buffers under their own names, the
  mesh files written so far and the events so far.
\<close>

record state =
  h_u :: field
  h_force :: field
  h_damage :: "real list"
  h_nlist :: "int list list"
  h_n_neigh :: "int list"
  r0_d :: field
  volume_d :: "real list"
  family_d :: "int list"
  r_d :: field
  nlist_d :: "int list list"
  n_neigh_d :: "int list"
  damage_d :: "real list"
  force_d :: field
  files :: "(path \<times> real list \<times> field) list"
  trace :: "event list"

type_synonym action = "state \<Rightarrow> error + state"

text \<open>Lines 115 to 151: initialisation and buffer creation.\<close>

definition init_state ::
  "'dev modelcl \<Rightarrow> uninit \<Rightarrow> int list list \<Rightarrow> int list \<Rightarrow> field \<Rightarrow> error + state" where
  "init_state m mem nl nn u0 =
     (case np_add (coords m) u0 of
        Inl e \<Rightarrow> Inl e
      | Inr r \<Rightarrow>
          Inr \<lparr> h_u = u0,
                h_force = np_empty (empty_force mem) (length (coords m)),
                h_damage = np_empty (empty_damage mem) (length nn),
                h_nlist = nl,
                h_n_neigh = nn,
                r0_d = coords m,
                volume_d = volume m,
                family_d = family m,
                r_d = r,
                nlist_d = nl,
                n_neigh_d = nn,
                damage_d = np_empty (fresh_damage_d mem) (length nn),
                force_d = np_empty (fresh_force_d mem) (length (coords m)),
                files = [],
                trace = [] \<rparr>)"

text \<open>Lines 157 to 175: the statements of the loop body, one action each.\<close>

definition do_bond_force :: "'dev modelcl \<Rightarrow> action" where
  "do_bond_force m s =
     Inr (s\<lparr> force_d := ModelCL_bond_force m (r_d s) (r0_d s) (nlist_d s) (n_neigh_d s)
                           (max_neighbours m) (volume_d s) (bond_stiffness m) (force_d s),
             trace := trace s @ [BondForce (r_d s)] \<rparr>)"

definition do_copy_force :: action where
  "do_copy_force s = Inr (s\<lparr> h_force := force_d s, trace := trace s @ [CopyForce] \<rparr>)"

definition do_integrate :: "integrator \<Rightarrow> action" where
  "do_integrate integ s =
     Inr (s\<lparr> h_u := integ (h_u s) (h_force s),
             trace := trace s @ [Integrate (h_u s) (h_force s)] \<rparr>)"

definition do_boundary :: "'dev modelcl \<Rightarrow> 'dev boundary_function \<Rightarrow> int \<Rightarrow> action" where
  "do_boundary m bf t s =
     Inr (s\<lparr> h_u := bf m (h_u s) t, trace := trace s @ [Boundary (h_u s) t] \<rparr>)"

definition do_refresh :: "'dev modelcl \<Rightarrow> action" where
  "do_refresh m s =
     (case np_add (coords m) (h_u s) of
        Inl e \<Rightarrow> Inl e
      | Inr r \<Rightarrow> Inr (s\<lparr> r_d := r, trace := trace s @ [RefreshCoords r] \<rparr>))"

definition do_break_bonds :: "'dev modelcl \<Rightarrow> action" where
  "do_break_bonds m s =
     (case ModelCL_break_bonds m (r_d s) (r0_d s) (nlist_d s) (n_neigh_d s)
             (max_neighbours m) (critical_strain m) of
        (nl, nn) \<Rightarrow>
          Inr (s\<lparr> nlist_d := nl, n_neigh_d := nn, trace := trace s @ [BreakBonds (r_d s)] \<rparr>))"

definition do_damage :: "'dev modelcl \<Rightarrow> action" where
  "do_damage m s =
     Inr (s\<lparr> damage_d := ModelCL_damage m (n_neigh_d s) (family_d s) (damage_d s),
             trace := trace s @ [Damage] \<rparr>)"

text \<open>
  Modelled from the spec: \<open>Model.write_mesh\<close> belongs to the base class, which is not
  among the source files. The spec describes the mesh writer as a "function
  \<open>(path, damage, displacement) \<rightarrow> ()\<close>": its only effect is the file.
\<close>

definition write_mesh :: "path \<Rightarrow> real list \<Rightarrow> field \<Rightarrow> state \<Rightarrow> state" where
  "write_mesh p dmg u s = s\<lparr> files := files s @ [(p, dmg, u)], trace := trace s @ [WriteMesh p] \<rparr>"

definition mesh_path :: "path \<Rightarrow> int \<Rightarrow> path" where
  "mesh_path wp t = wp @ [''U_'' @ str_int t @ ''.vtk'']"

text \<open>Lines 179 and 180: the two statements of the write branch.\<close>

definition snapshot :: "path \<Rightarrow> int \<Rightarrow> state \<Rightarrow> state" where
  "snapshot wp t s =
     (let s1 = s\<lparr> h_damage := damage_d s, trace := trace s @ [CopyDamage] \<rparr>
      in write_mesh (mesh_path wp t) (h_damage s1) (h_u s1) s1)"

text \<open>
  Lines 177 and 178: \<open>if write:\<close> is false for \<open>None\<close> and for \<open>0\<close>; only then is
  \<open>step % write\<close> evaluated.
\<close>

definition do_write :: "int option \<Rightarrow> path \<Rightarrow> int \<Rightarrow> action" where
  "do_write wr wp t s =
     (case wr of
        None \<Rightarrow> Inr s
      | Some w \<Rightarrow>
          if w \<noteq> 0 then
            (case py_mod t w of
               Inl e \<Rightarrow> Inl e
             | Inr r \<Rightarrow> if r = 0 then Inr (snapshot wp t s) else Inr s)
          else Inr s)"

definition step_body ::
  "'dev modelcl \<Rightarrow> integrator \<Rightarrow> 'dev boundary_function \<Rightarrow> int option \<Rightarrow> path \<Rightarrow> int
   \<Rightarrow> action list" where
  "step_body m integ bf wr wp t =
     [do_bond_force m, do_copy_force, do_integrate integ, do_boundary m bf t,
      do_refresh m, do_break_bonds m, do_damage m, do_write wr wp t]"

text \<open>Lines 182 to 184: the three copies after the loop.\<close>

definition copy_damage :: action where
  "copy_damage s = Inr (s\<lparr> h_damage := damage_d s, trace := trace s @ [CopyDamage] \<rparr>)"

definition copy_nlist :: action where
  "copy_nlist s = Inr (s\<lparr> h_nlist := nlist_d s, trace := trace s @ [CopyNlist] \<rparr>)"

definition copy_n_neigh :: action where
  "copy_n_neigh s = Inr (s\<lparr> h_n_neigh := n_neigh_d s, trace := trace s @ [CopyNNeigh] \<rparr>)"

text \<open>
  Running a sequence of statements stops at the first one that raises. \<open>trajectory\<close>
  lists every state the run passes through, the starting state first.
\<close>

fun exec :: "action list \<Rightarrow> state \<Rightarrow> error + state" where
  "exec [] s = Inr s"
| "exec (a # as) s = (case a s of Inl e \<Rightarrow> Inl e | Inr s' \<Rightarrow> exec as s')"

fun trajectory :: "action list \<Rightarrow> state \<Rightarrow> state list" where
  "trajectory [] s = [s]"
| "trajectory (a # as) s = s # (case a s of Inl e \<Rightarrow> [] | Inr s' \<Rightarrow> trajectory as s')"

text \<open>The loop of lines 153 to 180, one body per step number.\<close>

definition step_loop ::
  "'dev modelcl \<Rightarrow> integrator \<Rightarrow> 'dev boundary_function \<Rightarrow> int option \<Rightarrow> path \<Rightarrow> int \<Rightarrow> int
   \<Rightarrow> action list" where
  "step_loop m integ bf wr wp first_step steps =
     concat (map (step_body m integ bf wr wp) (py_range first_step (first_step + steps)))"

definition final_copies :: "action list" where
  "final_copies = [copy_damage, copy_nlist, copy_n_neigh]"

text \<open>
  \<open>simulate\<close> up to its last statement: the final values of all local variables, or the
  error that ended the run.
\<close>

definition simulate_run ::
  "'dev modelcl \<Rightarrow> uninit \<Rightarrow> int \<Rightarrow> integrator \<Rightarrow> 'dev boundary_function option \<Rightarrow> field option
   \<Rightarrow> connectivity option \<Rightarrow> int \<Rightarrow> int option \<Rightarrow> path option \<Rightarrow> error + state" where
  "simulate_run m mem steps integ bf u0 conn first_step wr wp =
     (case simulate_initialise m integ bf u0 conn wp of
        (nl, nn, u', bf', wp') \<Rightarrow>
          (case init_state m mem nl nn u' of
             Inl e \<Rightarrow> Inl e
           | Inr s0 \<Rightarrow>
               exec (step_loop m integ bf' wr wp' first_step steps @ final_copies) s0))"

text \<open>The states of a run, from buffer creation to the return statement.\<close>

definition simulate_states ::
  "'dev modelcl \<Rightarrow> uninit \<Rightarrow> int \<Rightarrow> integrator \<Rightarrow> 'dev boundary_function option \<Rightarrow> field option
   \<Rightarrow> connectivity option \<Rightarrow> int \<Rightarrow> int option \<Rightarrow> path option \<Rightarrow> state list" where
  "simulate_states m mem steps integ bf u0 conn first_step wr wp =
     (case simulate_initialise m integ bf u0 conn wp of
        (nl, nn, u', bf', wp') \<Rightarrow>
          (case init_state m mem nl nn u' of
             Inl e \<Rightarrow> []
           | Inr s0 \<Rightarrow>
               trajectory (step_loop m integ bf' wr wp' first_step steps @ final_copies) s0))"

text \<open>Line 185: the value returned.\<close>

definition returned :: "state \<Rightarrow> field \<times> real list \<times> connectivity" where
  "returned s = (h_u s, h_damage s, (h_nlist s, h_n_neigh s))"

definition ModelCL_simulate ::
  "'dev modelcl \<Rightarrow> uninit \<Rightarrow> int \<Rightarrow> integrator \<Rightarrow> 'dev boundary_function option \<Rightarrow> field option
   \<Rightarrow> connectivity option \<Rightarrow> int \<Rightarrow> int option \<Rightarrow> path option
   \<Rightarrow> error + (field \<times> real list \<times> connectivity)" where
  "ModelCL_simulate m mem steps integ bf u0 conn first_step wr wp =
     (case simulate_run m mem steps integ bf u0 conn first_step wr wp of
        Inl e \<Rightarrow> Inl e
      | Inr s \<Rightarrow> Inr (returned s))"

section \<open>The kernels, from the spec\<close>

text \<open>
  Modelled from the spec: the OpenCL program text \<open>kernel_source\<close> comes from the package
  \<open>peridynamics.cl\<close>, which is not among the source files. The spec's Damage Kernel
  computes, for each node, "\<open>damage[i] = (family[i] - n_neigh[i]) / family[i]\<close>", and
  "\<open>family[i] = 0\<close> is a degenerate case that must be handled without division failure
  (treat as 0 damage or flag)"; the model takes the value 0 there. A dispatch over \<open>g\<close>
  work items runs the item for every global id below \<open>g\<close>, each writing its own cell.
\<close>

definition damage_item :: "int list \<Rightarrow> int list \<Rightarrow> nat \<Rightarrow> real list \<Rightarrow> real list" where
  "damage_item nn fam i dmg =
     dmg[i := (if fam ! i = 0 then 0
               else real_of_int (fam ! i - nn ! i) / real_of_int (fam ! i))]"

definition damage_cl :: "nat \<Rightarrow> int list \<Rightarrow> int list \<Rightarrow> real list \<Rightarrow> real list" where
  "damage_cl g nn fam dmg = fold (damage_item nn fam) [0..<g] dmg"

text \<open>
  Modelled from the spec: the Bond Breaking Kernel of the same absent program. For node
  \<open>i\<close> and "each active neighbor \<open>j\<close> (0-indexed through active count), compute bond
  stretch = \<open>(current_length - reference_length) / reference_length\<close>; if stretch exceeds
  the critical strain, the bond is broken", and then "the live active count for node \<open>i\<close>
  must shrink", by "swap-to-end compaction of the neighbor row". The scan of one row
  keeps position \<open>k\<close> when it swaps, since the entry swapped in has not been examined yet.
  A work item reads the row and the count of its own node and writes both back.
\<close>

definition dist3 :: "vec3 \<Rightarrow> vec3 \<Rightarrow> real" where
  "dist3 a b =
     sqrt ((fst b - fst a)\<^sup>2 + (fst (snd b) - fst (snd a))\<^sup>2 + (snd (snd b) - snd (snd a))\<^sup>2)"

definition stretch :: "field \<Rightarrow> field \<Rightarrow> nat \<Rightarrow> nat \<Rightarrow> real" where
  "stretch r r0 i j =
     (dist3 (r ! i) (r ! j) - dist3 (r0 ! i) (r0 ! j)) / dist3 (r0 ! i) (r0 ! j)"

definition overstretched :: "field \<Rightarrow> field \<Rightarrow> real \<Rightarrow> nat \<Rightarrow> int \<Rightarrow> bool" where
  "overstretched r r0 crit i j = (crit < stretch r r0 i (nat j))"

function break_row :: "(int \<Rightarrow> bool) \<Rightarrow> int list \<Rightarrow> nat \<Rightarrow> nat \<Rightarrow> int list \<times> nat" where
  "break_row broken row k n =
     (if k < n then
        (if broken (row ! k)
         then break_row broken (row[k := row ! (n - 1), n - 1 := row ! k]) k (n - 1)
         else break_row broken row (Suc k) n)
      else (row, n))"
  by pat_completeness auto
termination
  by (relation "measure (\<lambda>(broken, row, k, n). n - k)") auto

declare break_row.simps [simp del]

definition break_node ::
  "field \<Rightarrow> field \<Rightarrow> real \<Rightarrow> nat \<Rightarrow> int list \<Rightarrow> int \<Rightarrow> int list \<times> int" where
  "break_node r r0 crit i row c =
     (if c \<le> 0 then (row, c)
      else (case break_row (overstretched r r0 crit i) row 0 (nat c) of
              (row', n') \<Rightarrow> (row', int n')))"

definition break_item ::
  "field \<Rightarrow> field \<Rightarrow> int \<Rightarrow> real \<Rightarrow> nat \<Rightarrow> int list list \<times> int list \<Rightarrow> int list list \<times> int list"
  where
  "break_item r r0 max_neigh crit i b =
     (case b of (nl, nn) \<Rightarrow>
        (case break_node r r0 crit i (nl ! i) (nn ! i) of
           (row', c') \<Rightarrow> (nl[i := row'], nn[i := c'])))"

definition break_bonds_cl ::
  "nat \<Rightarrow> field \<Rightarrow> field \<Rightarrow> int list list \<Rightarrow> int list \<Rightarrow> int \<Rightarrow> real \<Rightarrow> int list list \<times> int list"
  where
  "break_bonds_cl g r r0 nl nn max_neigh crit =
     fold (break_item r r0 max_neigh crit) [0..<g] (nl, nn)"

section \<open>The order of a step, as a property of the event sequence\<close>

text \<open>
  A step writes a snapshot when a write interval is set, is not zero, and divides the
  step number. \<open>step_segment\<close> recognises the events of one step \<open>t\<close>: force kernel,
  force copy, integrator on \<open>(u, force)\<close>, boundary function on the integrator's result
  and \<open>t\<close>, upload of \<open>coords\<close> plus the boundary function's result, breaking kernel on
  the uploaded coordinates, damage kernel, and then the snapshot events if the step
  writes.
\<close>

definition writes :: "int option \<Rightarrow> int \<Rightarrow> bool" where
  "writes wr t = (case wr of None \<Rightarrow> False | Some w \<Rightarrow> w \<noteq> 0 \<and> t mod w = 0)"

definition write_events :: "int option \<Rightarrow> path \<Rightarrow> int \<Rightarrow> event list" where
  "write_events wr wp t = (if writes wr t then [CopyDamage, WriteMesh (mesh_path wp t)] else [])"

definition step_segment ::
  "'dev modelcl \<Rightarrow> integrator \<Rightarrow> 'dev boundary_function \<Rightarrow> int option \<Rightarrow> path \<Rightarrow> int
   \<Rightarrow> event list \<Rightarrow> bool" where
  "step_segment m integ bf wr wp t seg =
     (case seg of
        BondForce r # _ # Integrate u f # _ \<Rightarrow>
          (case np_add (coords m) (bf m (integ u f) t) of
             Inl _ \<Rightarrow> False
           | Inr r' \<Rightarrow>
               seg = [BondForce r, CopyForce, Integrate u f, Boundary (integ u f) t,
                      RefreshCoords r', BreakBonds r', Damage] @ write_events wr wp t)
      | _ \<Rightarrow> False)"




section \<open>The connectivity invariant\<close>

text \<open>
  The spec's invariant on the active counts \<open>nn\<close> against the family counts \<open>fam\<close> and
  the row capacity, one entry per node, and the relation between an earlier and a later
  array of counts: same nodes, no count larger than before.
\<close>

definition counts_ok :: "int \<Rightarrow> int list \<Rightarrow> int list \<Rightarrow> bool" where
  "counts_ok cap nn fam = list_all2 (\<lambda>c f. 0 \<le> c \<and> c \<le> f \<and> f \<le> cap) nn fam"

definition counts_shrink :: "int list \<Rightarrow> int list \<Rightarrow> bool" where
  "counts_shrink before after = list_all2 (\<lambda>c c'. c' \<le> c \<and> (0 \<le> c \<longrightarrow> 0 \<le> c')) before after"

text \<open>
  The two as properties of states: the device counts of a later state have shrunk from
  those of an earlier one, with the family counts untouched; and a state meets the
  invariant of model \<open>m\<close> on the device and on the host.
\<close>

definition state_shrinks :: "state \<Rightarrow> state \<Rightarrow> bool" where
  "state_shrinks s s' =
     (family_d s' = family_d s \<and> counts_shrink (n_neigh_d s) (n_neigh_d s'))"

definition state_ok :: "'dev modelcl \<Rightarrow> state \<Rightarrow> bool" where
  "state_ok m s =
     (family_d s = family m
      \<and> counts_ok (max_neighbours m) (n_neigh_d s) (family_d s)
      \<and> counts_ok (max_neighbours m) (h_n_neigh s) (family_d s))"

section \<open>Reading a decimal back\<close>




section \<open>A two-node example\<close>

text \<open>
  Two nodes one unit apart on the x axis, each the other's only neighbour, with the
  kernels above, a force kernel that writes zero forces, and an integrator that moves
  the second node one unit further along the axis at every step.
\<close>

definition zero_force ::
  "nat \<Rightarrow> field \<Rightarrow> field \<Rightarrow> int list list \<Rightarrow> int list \<Rightarrow> int \<Rightarrow> real list \<Rightarrow> real \<Rightarrow> field \<Rightarrow> field"
  where
  "zero_force g r r0 nl nn max_neigh vol k f = replicate g (0, 0, 0)"

definition two_nodes :: "unit modelcl" where
  "two_nodes =
     \<lparr> nnodes = 2,
       coords = [(0, 0, 0), (1, 0, 0)],
       volume = [1, 1],
       family = [1, 1],
       max_neighbours = 1,
       bond_stiffness = 1,
       critical_strain = 1 / 2,
       initial_connectivity = ([[1], [0]], [1, 1]),
       cl_context = [()],
       damage_kernel = damage_cl,
       break_bonds_kernel = break_bonds_cl,
       bond_force_kernel = zero_force \<rparr>"

definition pull :: integrator where
  "pull u f = (case u of [a, b] \<Rightarrow> [a, vadd b (1, 0, 0)] | _ \<Rightarrow> u)"

definition mem7 :: uninit where
  "mem7 =
     \<lparr> empty_damage = (\<lambda>_. 7), empty_force = (\<lambda>_. (7, 7, 7)),
       fresh_damage_d = (\<lambda>_. 7), fresh_force_d = (\<lambda>_. (7, 7, 7)) \<rparr>"



definition follow :: integrator where
  "follow u f = (case (u, f) of ([a, b], [fa, fb]) \<Rightarrow> [a, vadd b fb] | _ \<Rightarrow> u)"


section \<open>Running statement sequences\<close>

lemma exec_append:
  "exec (xs @ ys) s = (case exec xs s of Inl e \<Rightarrow> Inl e | Inr s' \<Rightarrow> exec ys s')"
  by (induction xs arbitrary: s) (auto split: sum.splits)

lemma py_range_nonpos: "steps \<le> 0 \<Longrightarrow> py_range a (a + steps) = []"
  by (simp add: py_range_def)

lemma py_range_step: "a < b \<Longrightarrow> py_range a b = a # py_range (a + 1) b"
  by (simp add: py_range_def upto_rec1)

lemma np_add_error: "np_add a b = Inl e \<Longrightarrow> e = ValueError broadcast_message"
  by (auto simp: np_add_def split: if_splits)

lemma do_write_error: "do_write wr wp t s \<noteq> Inl e"
  by (auto simp: do_write_def py_mod_def split: option.splits)

lemma step_body_error:
  "exec (step_body m integ bf wr wp t) s = Inl e \<Longrightarrow> e = ValueError broadcast_message"
  by (auto simp: step_body_def do_bond_force_def do_copy_force_def do_integrate_def
        do_boundary_def do_refresh_def do_break_bonds_def do_damage_def do_write_error
      split: sum.splits prod.splits dest: np_add_error)

lemma step_loop_error:
  "exec (concat (map (step_body m integ bf wr wp) ts)) s = Inl e \<Longrightarrow> e = ValueError broadcast_message"
proof (induction ts arbitrary: s)
  case Nil
  then show ?case by simp
next
  case (Cons t ts)
  then show ?case
    by (auto simp: exec_append split: sum.splits dest: step_body_error)
qed

lemma final_copies_exec:
  "exec final_copies s =
     Inr (s\<lparr> h_damage := damage_d s, h_nlist := nlist_d s, h_n_neigh := n_neigh_d s,
             trace := trace s @ [CopyDamage, CopyNlist, CopyNNeigh] \<rparr>)"
  by (simp add: final_copies_def copy_damage_def copy_nlist_def copy_n_neigh_def)

lemma simulate_run_error:
  "simulate_run m mem steps integ bf u0 conn first_step wr wp = Inl e \<Longrightarrow> e = ValueError broadcast_message"
  by (auto simp: simulate_run_def init_state_def exec_append final_copies_exec step_loop_def
      split: prod.splits sum.splits dest: np_add_error step_loop_error)

lemma step_segmentI:
  "np_add (coords m) (bf m (integ u f) t) = Inr r' \<Longrightarrow>
   step_segment m integ bf wr wp t
     ([BondForce r, CopyForce, Integrate u f, Boundary (integ u f) t,
       RefreshCoords r', BreakBonds r', Damage] @ write_events wr wp t)"
  by (simp add: step_segment_def)

lemma do_write_exec:
  "do_write wr wp t s = Inr (if writes wr t then snapshot wp t s else s)"
  by (auto simp: do_write_def writes_def py_mod_def split: option.splits)

lemma trace_snapshot: "trace (snapshot wp t s) = trace s @ [CopyDamage, WriteMesh (mesh_path wp t)]"
  by (simp add: snapshot_def write_mesh_def Let_def)

lemma step_body_trace:
  assumes "exec (step_body m integ bf wr wp t) s = Inr s'"
  shows "\<exists>seg. trace s' = trace s @ seg \<and> step_segment m integ bf wr wp t seg"
proof -
  let ?f = "ModelCL_bond_force m (r_d s) (r0_d s) (nlist_d s) (n_neigh_d s)
              (max_neighbours m) (volume_d s) (bond_stiffness m) (force_d s)"
  let ?u = "bf m (integ (h_u s) ?f) t"
  from assms obtain r' where r': "np_add (coords m) ?u = Inr r'"
    by (auto simp: step_body_def do_bond_force_def do_copy_force_def do_integrate_def
          do_boundary_def do_refresh_def split: sum.splits)
  from this assms have "trace s' = trace s @
      ([BondForce (r_d s), CopyForce, Integrate (h_u s) ?f, Boundary (integ (h_u s) ?f) t,
        RefreshCoords r', BreakBonds r', Damage] @ write_events wr wp t)"
    by (auto simp: step_body_def do_bond_force_def do_copy_force_def do_integrate_def
          do_boundary_def do_refresh_def do_break_bonds_def do_damage_def do_write_exec
          write_events_def trace_snapshot
        split: prod.splits)
  moreover have "step_segment m integ bf wr wp t
      ([BondForce (r_d s), CopyForce, Integrate (h_u s) ?f, Boundary (integ (h_u s) ?f) t,
        RefreshCoords r', BreakBonds r', Damage] @ write_events wr wp t)"
    using r' by (rule step_segmentI)
  ultimately show ?thesis by blast
qed

lemma step_loop_trace:
  "exec (concat (map (step_body m integ bf wr wp) ts)) s = Inr s' \<Longrightarrow>
   \<exists>segs. trace s' = trace s @ concat segs \<and> list_all2 (step_segment m integ bf wr wp) ts segs"
proof (induction ts arbitrary: s)
  case Nil
  then show ?case by simp
next
  case (Cons t ts)
  from Cons.prems obtain s1 where s1: "exec (step_body m integ bf wr wp t) s = Inr s1"
    and rest: "exec (concat (map (step_body m integ bf wr wp) ts)) s1 = Inr s'"
    by (auto simp: exec_append split: sum.splits)
  from step_body_trace[OF s1] obtain seg where
    seg: "trace s1 = trace s @ seg" "step_segment m integ bf wr wp t seg" by blast
  from Cons.IH[OF rest] obtain segs where
    segs: "trace s' = trace s1 @ concat segs" "list_all2 (step_segment m integ bf wr wp) ts segs"
    by blast
  have "trace s' = trace s @ concat (seg # segs)" using seg segs by simp
  moreover have "list_all2 (step_segment m integ bf wr wp) (t # ts) (seg # segs)"
    using seg segs by simp
  ultimately show ?case by blast
qed

lemma np_add_same_length: "length b = length a \<Longrightarrow> np_add a b = Inr (map2 vadd a b)"
  by (simp add: np_add_def)

lemma step_body_total:
  assumes "length (bf m (integ (h_u s) (ModelCL_bond_force m (r_d s) (r0_d s) (nlist_d s) (n_neigh_d s)
              (max_neighbours m) (volume_d s) (bond_stiffness m) (force_d s))) t) = length (coords m)"
  shows "\<exists>s'. exec (step_body m integ bf wr wp t) s = Inr s' \<and> length (h_u s') = length (coords m)"
  using assms
  by (auto simp: step_body_def do_bond_force_def do_copy_force_def do_integrate_def
        do_boundary_def do_refresh_def do_break_bonds_def do_damage_def do_write_exec
        np_add_same_length snapshot_def write_mesh_def Let_def
      split: prod.splits)

lemma step_loop_total:
  assumes "\<forall>u f t. length u = length (coords m) \<longrightarrow> length (bf m (integ u f) t) = length (coords m)"
    and "length (h_u s) = length (coords m)"
  shows "\<exists>s'. exec (concat (map (step_body m integ bf wr wp) ts)) s = Inr s'"
  using assms(2)
proof (induction ts arbitrary: s)
  case Nil
  then show ?case by simp
next
  case (Cons t ts)
  from assms(1) Cons.prems obtain s1 where
    s1: "exec (step_body m integ bf wr wp t) s = Inr s1" "length (h_u s1) = length (coords m)"
    using step_body_total[of bf m integ s t wr wp] by blast
  from Cons.IH[OF s1(2)] s1(1) show ?case
    by (auto simp: exec_append)
qed

lemma simulate_run_total:
  assumes "\<forall>u f t. length u = length (coords m) \<longrightarrow>
             length ((case bf of None \<Rightarrow> (\<lambda>_ u _. u) | Some g \<Rightarrow> g) m (integ u f) t) = length (coords m)"
    and "length (case u0 of None \<Rightarrow> replicate (nnodes m) (0, 0, 0) | Some v \<Rightarrow> v) = length (coords m)"
  shows "\<exists>fin. simulate_run m mem steps integ bf u0 conn first_step wr wp = Inr fin"
proof -
  obtain nl nn u' bf' wp' where ini: "simulate_initialise m integ bf u0 conn wp = (nl, nn, u', bf', wp')"
    by (metis prod_cases5)
  then have u': "u' = (case u0 of None \<Rightarrow> replicate (nnodes m) (0, 0, 0) | Some v \<Rightarrow> v)"
    and bf': "bf' = (case bf of None \<Rightarrow> (\<lambda>_ u _. u) | Some g \<Rightarrow> g)"
    by (auto simp: simulate_initialise_def Let_def split: prod.splits)
  from assms(2) u' obtain s0 where s0: "init_state m mem nl nn u' = Inr s0" "h_u s0 = u'"
    by (auto simp: init_state_def np_add_same_length)
  have "\<forall>u f t. length u = length (coords m) \<longrightarrow> length (bf' m (integ u f) t) = length (coords m)"
    using assms(1) bf' by simp
  moreover have "length (h_u s0) = length (coords m)"
    using assms(2) u' s0 by simp
  ultimately obtain s1 where
    "exec (step_loop m integ bf' wr wp' first_step steps) s0 = Inr s1"
    unfolding step_loop_def by (blast dest: step_loop_total)
  with ini s0 show ?thesis
    by (simp add: simulate_run_def exec_append final_copies_exec)
qed

lemma simulate_run_zero:
  assumes "simulate_initialise m integ bf u0 conn wp = (nl, nn, u', bf', wp')"
    and "init_state m mem nl nn u' = Inr s0"
  shows "simulate_run m mem 0 integ bf u0 conn first_step wr wp =
     Inr (s0\<lparr> h_damage := damage_d s0, h_nlist := nlist_d s0, h_n_neigh := n_neigh_d s0,
              trace := trace s0 @ [CopyDamage, CopyNlist, CopyNNeigh] \<rparr>)"
  using assms
  by (simp add: simulate_run_def step_loop_def py_range_def final_copies_exec)

lemma simulate_run_split:
  assumes "simulate_run m mem steps integ bf u0 conn first_step wr wp = Inr fin"
  shows "\<exists>nl nn s0 s1.
           init_state m mem nl nn (case u0 of None \<Rightarrow> replicate (nnodes m) (0, 0, 0) | Some v \<Rightarrow> v) = Inr s0
         \<and> (nl, nn) = (case conn of None \<Rightarrow> initial_connectivity m | Some c \<Rightarrow> c)
         \<and> exec (concat (map (step_body m integ (case bf of None \<Rightarrow> (\<lambda>_ u _. u) | Some g \<Rightarrow> g) wr
                                 (case wp of None \<Rightarrow> [] | Some p \<Rightarrow> p))
                            (py_range first_step (first_step + steps)))) s0 = Inr s1
         \<and> fin = s1\<lparr> h_damage := damage_d s1, h_nlist := nlist_d s1, h_n_neigh := n_neigh_d s1,
                      trace := trace s1 @ [CopyDamage, CopyNlist, CopyNNeigh] \<rparr>"
  using assms
  by (auto simp: simulate_run_def simulate_initialise_def Let_def exec_append final_copies_exec
        step_loop_def split: prod.splits sum.splits)

lemma init_state_fresh:
  "init_state m mem nl nn u' = Inr s0 \<Longrightarrow>
     trace s0 = [] \<and> files s0 = [] \<and> h_u s0 = u' \<and> nlist_d s0 = nl \<and> n_neigh_d s0 = nn
     \<and> family_d s0 = family m \<and> h_n_neigh s0 = nn \<and> h_nlist s0 = nl"
  by (auto simp: init_state_def split: sum.splits)

lemma step_segmentD:
  assumes "step_segment m integ bf wr wp t seg"
  shows "\<exists>r u f r'. np_add (coords m) (bf m (integ u f) t) = Inr r'
           \<and> seg = [BondForce r, CopyForce, Integrate u f, Boundary (integ u f) t,
                    RefreshCoords r', BreakBonds r', Damage] @ write_events wr wp t"
proof (cases seg)
  case Nil
  with assms show ?thesis by (simp add: step_segment_def)
next
  case c1: (Cons e1 l1)
  show ?thesis
  proof (cases l1)
    case Nil
    with assms c1 show ?thesis by (simp add: step_segment_def split: event.splits)
  next
    case c2: (Cons e2 l2)
    show ?thesis
    proof (cases l2)
      case Nil
      with assms c1 c2 show ?thesis by (simp add: step_segment_def split: event.splits)
    next
      case c3: (Cons e3 l3)
      from assms c1 c2 c3 obtain r where e1: "e1 = BondForce r"
        by (cases e1) (simp_all add: step_segment_def)
      from assms c1 c2 c3 e1 obtain u f where e3: "e3 = Integrate u f"
        by (cases e3) (simp_all add: step_segment_def)
      from assms c1 c2 c3 e1 e3 show ?thesis
        by (simp add: step_segment_def split: sum.splits)
    qed
  qed
qed

lemma step_segment_shape:
  assumes "step_segment m integ bf wr wp t seg"
  shows "seg \<noteq> [] \<and> CopyNlist \<notin> set seg \<and> CopyNNeigh \<notin> set seg
     \<and> (last seg = Damage \<or> last seg = WriteMesh (mesh_path wp t))"
proof -
  from step_segmentD[OF assms] obtain r u f r' where
    "seg = [BondForce r, CopyForce, Integrate u f, Boundary (integ u f) t,
            RefreshCoords r', BreakBonds r', Damage] @ write_events wr wp t"
    by blast
  then show ?thesis by (simp add: write_events_def)
qed

lemma segments_shape:
  "list_all2 (step_segment m integ bf wr wp) ts segs \<Longrightarrow>
     CopyNlist \<notin> set (concat segs) \<and> CopyNNeigh \<notin> set (concat segs)
     \<and> (concat segs = [] \<or> last (concat segs) = Damage \<or> (\<exists>p. last (concat segs) = WriteMesh p))"
proof (induction rule: list_all2_induct)
  case Nil
  then show ?case by simp
next
  case (Cons t ts seg segs)
  from step_segment_shape[OF Cons.hyps(1)] Cons.IH show ?case
    by (cases "concat segs = []") auto
qed

lemma pull_length: "length (pull u f) = length u"
  by (auto simp: pull_def split: list.splits)


lemma two_nodes_run:
  "\<exists>fin. simulate_run two_nodes mem7 2 pull None None None 1 (Some 2) (Some [''out'']) = Inr fin"
  by (rule simulate_run_total) (simp_all add: pull_length two_nodes_def)








lemma files_snapshot:
  "files (snapshot wp t s) = files s @ [(mesh_path wp t, damage_d s, h_u s)]"
  by (simp add: snapshot_def write_mesh_def Let_def)

lemma step_body_files:
  assumes "exec (step_body m integ bf wr wp t) s = Inr s'"
  shows "map fst (files s') = map fst (files s) @ (if writes wr t then [mesh_path wp t] else [])"
  using assms
  by (auto simp: step_body_def do_bond_force_def do_copy_force_def do_integrate_def
        do_boundary_def do_refresh_def do_break_bonds_def do_damage_def do_write_exec
        files_snapshot
      split: prod.splits sum.splits)

lemma step_loop_files:
  "exec (concat (map (step_body m integ bf wr wp) ts)) s = Inr s' \<Longrightarrow>
   map fst (files s') = map fst (files s) @ map (mesh_path wp) (filter (writes wr) ts)"
proof (induction ts arbitrary: s)
  case Nil
  then show ?case by simp
next
  case (Cons t ts)
  from Cons.prems obtain s1 where s1: "exec (step_body m integ bf wr wp t) s = Inr s1"
    and rest: "exec (concat (map (step_body m integ bf wr wp) ts)) s1 = Inr s'"
    by (auto simp: exec_append split: sum.splits)
  from step_body_files[OF s1] Cons.IH[OF rest] show ?case by simp
qed

lemma simulate_run_files:
  assumes "simulate_run m mem steps integ bf u0 conn first_step wr wp = Inr fin"
  shows "map fst (files fin) =
           map (mesh_path (case wp of None \<Rightarrow> [] | Some p \<Rightarrow> p))
             (filter (writes wr) (py_range first_step (first_step + steps)))"
proof -
  from simulate_run_split[OF assms] obtain nl nn s0 s1 where
    s0: "init_state m mem nl nn (case u0 of None \<Rightarrow> replicate (nnodes m) (0, 0, 0) | Some v \<Rightarrow> v) = Inr s0"
    and loop: "exec (concat (map (step_body m integ (case bf of None \<Rightarrow> (\<lambda>_ u _. u) | Some g \<Rightarrow> g) wr
                                 (case wp of None \<Rightarrow> [] | Some p \<Rightarrow> p))
                            (py_range first_step (first_step + steps)))) s0 = Inr s1"
    and fin: "fin = s1\<lparr> h_damage := damage_d s1, h_nlist := nlist_d s1, h_n_neigh := n_neigh_d s1,
                      trace := trace s1 @ [CopyDamage, CopyNlist, CopyNNeigh] \<rparr>"
    by blast
  from step_loop_files[OF loop] init_state_fresh[OF s0] fin show ?thesis by simp
qed

section \<open>The breaking kernel\<close>

lemma dist3_x_axis: "dist3 (a, 0, 0) (b, 0, 0) = \<bar>b - a\<bar>"
  by (simp add: dist3_def)

lemma two_nodes_kernel_break:
  "break_bonds_cl 2 [(0, 0, 0), (2, 0, 0)] [(0, 0, 0), (1, 0, 0)] [[1], [0]] [1, 1] 1 (1 / 2)
     = ([[1], [0]], [0, 0])"
  by (simp add: break_bonds_cl_def break_item_def break_node_def break_row.simps overstretched_def
        stretch_def dist3_x_axis upt_rec numeral_2_eq_2)

lemma two_nodes_kernel_break':
  "break_bonds_cl (Suc (Suc 0)) [(0, 0, 0), (2, 0, 0)] [(0, 0, 0), (1, 0, 0)] [[1], [0]] [1, 1] 1 (1 / 2)
     = ([[1], [0]], [0, 0])"
  using two_nodes_kernel_break by (simp add: numeral_2_eq_2)

lemma two_nodes_kernel_damage: "damage_cl 2 [0, 1] [1, 1] [7, 7] = [1, 0]"
  by (simp add: damage_cl_def damage_item_def upt_rec numeral_2_eq_2)

lemma two_nodes_one_step: "ModelCL_simulate two_nodes mem7 1 pull None None None 1 None None
   = Inr ([(0, 0, 0), (1, 0, 0)], [1, 1], ([[1], [0]], [0, 0]))"
  by (simp add: ModelCL_simulate_def simulate_run_def simulate_initialise_def two_nodes_def mem7_def
      init_state_def np_add_def np_empty_def step_loop_def py_range_def final_copies_def
      copy_damage_def copy_nlist_def copy_n_neigh_def returned_def vadd_def upt_rec upto_rec1
      step_body_def do_bond_force_def do_copy_force_def do_integrate_def
      do_boundary_def do_refresh_def do_break_bonds_def do_damage_def do_write_def
      ModelCL_bond_force_def ModelCL_break_bonds_def ModelCL_damage_def zero_force_def pull_def
      two_nodes_kernel_break' numeral_2_eq_2 damage_cl_def damage_item_def)

lemma break_row_count: "snd (break_row b row k n) \<le> n"
proof (induction b row k n rule: break_row.induct)
  case (1 b row k n)
  show ?case
  proof (cases "k < n")
    case False
    then show ?thesis by (simp add: break_row.simps[of b row k n])
  next
    case True
    show ?thesis
    proof (cases "b (row ! k)")
      case True
      with \<open>k < n\<close> "1.IH"(1) have
        "snd (break_row b (row[k := row ! (n - 1), n - 1 := row ! k]) k (n - 1)) \<le> n - 1"
        by simp
      with True \<open>k < n\<close> show ?thesis
        by (simp add: break_row.simps[of b row k n])
    next
      case False
      with \<open>k < n\<close> "1.IH"(2) have "snd (break_row b row (Suc k) n) \<le> n" by simp
      with False \<open>k < n\<close> show ?thesis
        by (simp add: break_row.simps[of b row k n])
    qed
  qed
qed

lemma break_row_clean:
  "k \<le> n \<Longrightarrow> \<forall>j<k. \<not> b (row ! j) \<Longrightarrow> break_row b row k n = (row', n')
     \<Longrightarrow> \<forall>j<n'. \<not> b (row' ! j)"
proof (induction b row k n rule: break_row.induct)
  case (1 b row k n)
  show ?case
  proof (cases "k < n")
    case False
    then have "break_row b row k n = (row, n)" by (simp add: break_row.simps[of b row k n])
    with "1.prems" False have "row' = row" "n' = n" "k = n" by auto
    with "1.prems"(2) show ?thesis by simp
  next
    case True
    show ?thesis
    proof (cases "b (row ! k)")
      case brk: True
      let ?row = "row[k := row ! (n - 1), n - 1 := row ! k]"
      have "\<forall>j<k. \<not> b (?row ! j)" using "1.prems"(2) True by simp
      moreover have "break_row b ?row k (n - 1) = (row', n')"
        using "1.prems"(3) True brk by (simp add: break_row.simps[of b row k n])
      moreover have "k \<le> n - 1" using True by simp
      ultimately show ?thesis using "1.IH"(1)[OF True brk] by blast
    next
      case keep: False
      have "\<forall>j<Suc k. \<not> b (row ! j)" using "1.prems"(2) keep by (simp add: less_Suc_eq)
      moreover have "break_row b row (Suc k) n = (row', n')"
        using "1.prems"(3) True keep by (simp add: break_row.simps[of b row k n])
      moreover have "Suc k \<le> n" using True by simp
      ultimately show ?thesis using "1.IH"(2)[OF True keep] by blast
    qed
  qed
qed

lemma break_row_fixed:
  "\<forall>j. k \<le> j \<and> j < n \<longrightarrow> \<not> b (row ! j) \<Longrightarrow> break_row b row k n = (row, n)"
proof (induction b row k n rule: break_row.induct)
  case (1 b row k n)
  show ?case
  proof (cases "k < n")
    case False
    then show ?thesis by (simp add: break_row.simps[of b row k n])
  next
    case True
    with "1.prems" have keep: "\<not> b (row ! k)" by simp
    have "\<forall>j. Suc k \<le> j \<and> j < n \<longrightarrow> \<not> b (row ! j)" using "1.prems" by simp
    with "1.IH"(2)[OF True keep] have "break_row b row (Suc k) n = (row, n)" by blast
    with True keep show ?thesis by (simp add: break_row.simps[of b row k n])
  qed
qed

lemma break_row_idem:
  assumes "break_row b row 0 n = (row', n')"
  shows "break_row b row' 0 n' = (row', n')"
proof -
  from break_row_clean[OF _ _ assms] have "\<forall>j<n'. \<not> b (row' ! j)" by simp
  then show ?thesis by (simp add: break_row_fixed)
qed

lemma break_node_idem:
  assumes "break_node r r0 crit i row c = (row', c')"
  shows "break_node r r0 crit i row' c' = (row', c')"
proof (cases "c \<le> 0")
  case True
  with assms show ?thesis by (simp add: break_node_def)
next
  case False
  with assms obtain n' where n': "break_row (overstretched r r0 crit i) row 0 (nat c) = (row', n')"
    and c': "c' = int n'"
    by (auto simp: break_node_def split: prod.splits)
  from break_row_idem[OF n'] c' show ?thesis
    by (simp add: break_node_def)
qed

lemma break_node_count:
  assumes "break_node r r0 crit i row c = (row', c')"
  shows "c' \<le> c \<and> (0 \<le> c \<longrightarrow> 0 \<le> c')"
proof (cases "c \<le> 0")
  case True
  with assms show ?thesis by (simp add: break_node_def)
next
  case False
  with assms obtain n' where n': "break_row (overstretched r r0 crit i) row 0 (nat c) = (row', n')"
    and c': "c' = int n'"
    by (auto simp: break_node_def split: prod.splits)
  from break_row_count[of "overstretched r r0 crit i" row 0 "nat c"] n' have "n' \<le> nat c" by simp
  with c' False show ?thesis by simp
qed

lemma break_fold_nth:
  "g \<le> length nl \<Longrightarrow> g \<le> length nn \<Longrightarrow>
   fold (break_item r r0 mx crit) [0..<g] (nl, nn) = (nl', nn') \<Longrightarrow>
     length nl' = length nl \<and> length nn' = length nn
   \<and> (\<forall>i<g. break_node r r0 crit i (nl ! i) (nn ! i) = (nl' ! i, nn' ! i))
   \<and> (\<forall>i. g \<le> i \<longrightarrow> nl' ! i = nl ! i \<and> nn' ! i = nn ! i)"
proof (induction g arbitrary: nl' nn')
  case 0
  then show ?case by simp
next
  case (Suc g)
  obtain nl1 nn1 where mid: "fold (break_item r r0 mx crit) [0..<g] (nl, nn) = (nl1, nn1)"
    by (cases "fold (break_item r r0 mx crit) [0..<g] (nl, nn)")
  from Suc.prems have g: "g < length nl" "g < length nn" by simp_all
  with Suc.IH[OF _ _ mid] have
    len: "length nl1 = length nl" "length nn1 = length nn"
    and low: "\<forall>i<g. break_node r r0 crit i (nl ! i) (nn ! i) = (nl1 ! i, nn1 ! i)"
    and high: "\<forall>i. g \<le> i \<longrightarrow> nl1 ! i = nl ! i \<and> nn1 ! i = nn ! i"
    by simp_all
  obtain row' c' where node: "break_node r r0 crit g (nl1 ! g) (nn1 ! g) = (row', c')"
    by (cases "break_node r r0 crit g (nl1 ! g) (nn1 ! g)")
  from Suc.prems(3) mid have "break_item r r0 mx crit g (nl1, nn1) = (nl', nn')"
    by simp
  with node have res: "nl' = nl1[g := row']" "nn' = nn1[g := c']"
    by (simp_all add: break_item_def)
  have "\<forall>i<Suc g. break_node r r0 crit i (nl ! i) (nn ! i) = (nl' ! i, nn' ! i)"
  proof (intro allI impI)
    fix i assume "i < Suc g"
    show "break_node r r0 crit i (nl ! i) (nn ! i) = (nl' ! i, nn' ! i)"
    proof (cases "i = g")
      case True
      with node high g len res show ?thesis by simp
    next
      case False
      with \<open>i < Suc g\<close> low res show ?thesis by simp
    qed
  qed
  moreover have "\<forall>i. Suc g \<le> i \<longrightarrow> nl' ! i = nl ! i \<and> nn' ! i = nn ! i"
    using high res by simp
  ultimately show ?case using len res by simp
qed

lemma break_bonds_cl_idem:
  assumes "g \<le> length nl" "g \<le> length nn"
    and "break_bonds_cl g r r0 nl nn mx crit = (nl', nn')"
  shows "break_bonds_cl g r r0 nl' nn' mx crit = (nl', nn')"
proof -
  from assms(3) have f1: "fold (break_item r r0 mx crit) [0..<g] (nl, nn) = (nl', nn')"
    by (simp add: break_bonds_cl_def)
  note a = break_fold_nth[OF assms(1,2) f1]
  obtain nl2 nn2 where f2: "fold (break_item r r0 mx crit) [0..<g] (nl', nn') = (nl2, nn2)"
    by (cases "fold (break_item r r0 mx crit) [0..<g] (nl', nn')")
  from a assms(1,2) have g': "g \<le> length nl'" "g \<le> length nn'" by simp_all
  note b = break_fold_nth[OF g' f2]
  have same: "nl2 ! i = nl' ! i \<and> nn2 ! i = nn' ! i" for i
  proof (cases "i < g")
    case True
    with a have "break_node r r0 crit i (nl ! i) (nn ! i) = (nl' ! i, nn' ! i)" by simp
    from break_node_idem[OF this] b True show ?thesis by simp
  next
    case False
    with b show ?thesis by simp
  qed
  have "nl2 = nl'" using b same by (auto intro: nth_equalityI)
  moreover have "nn2 = nn'" using b same by (auto intro: nth_equalityI)
  ultimately show ?thesis using f2 by (simp add: break_bonds_cl_def)
qed

lemma two_nodes_break:
  "ModelCL_break_bonds two_nodes [(0, 0, 0), (2, 0, 0)] [(0, 0, 0), (1, 0, 0)] [[1], [0]] [1, 1] 1 (1 / 2)
     = ([[1], [0]], [0, 0])"
  using two_nodes_kernel_break by (simp add: ModelCL_break_bonds_def two_nodes_def)

lemma swap_to_end_example:
  "break_row (\<lambda>j. j = 5) [5, 3, 5, 4] 0 4 = ([4, 3, 5, 5], 2)"
  by (simp add: break_row.simps)

section \<open>The invariant along a run\<close>

lemma counts_shrink_refl: "counts_shrink nn nn"
  by (simp add: counts_shrink_def list_all2_same)

lemma counts_shrink_trans:
  "counts_shrink a b \<Longrightarrow> counts_shrink b c \<Longrightarrow> counts_shrink a c"
  unfolding counts_shrink_def
  by (auto simp: list_all2_conv_all_nth) (metis order_trans)

lemma counts_shrink_update:
  "c' \<le> nn ! i \<Longrightarrow> (0 \<le> nn ! i \<longrightarrow> 0 \<le> c') \<Longrightarrow> counts_shrink nn (nn[i := c'])"
  unfolding counts_shrink_def list_all2_conv_all_nth
proof (intro conjI allI impI)
  fix j assume a: "c' \<le> nn ! i" "0 \<le> nn ! i \<longrightarrow> 0 \<le> c'" and j: "j < length nn"
  show "nn[i := c'] ! j \<le> nn ! j" using a j by (cases "j = i") simp_all
  assume "0 \<le> nn ! j"
  then show "0 \<le> nn[i := c'] ! j" using a j by (cases "j = i") simp_all
qed simp

lemma counts_ok_shrink:
  "counts_ok cap nn fam \<Longrightarrow> counts_shrink nn nn' \<Longrightarrow> counts_ok cap nn' fam"
  unfolding counts_ok_def counts_shrink_def
  by (auto simp: list_all2_conv_all_nth) (metis order_trans)

lemma break_item_shrink:
  assumes "break_item r r0 mx crit i (nl, nn) = (nl', nn')"
  shows "counts_shrink nn nn'"
proof -
  obtain row' c' where node: "break_node r r0 crit i (nl ! i) (nn ! i) = (row', c')"
    by (cases "break_node r r0 crit i (nl ! i) (nn ! i)")
  with assms have "nn' = nn[i := c']" by (simp add: break_item_def)
  with break_node_count[OF node] show ?thesis by (simp add: counts_shrink_update)
qed

lemma break_fold_shrink:
  "fold (break_item r r0 mx crit) is (nl, nn) = (nl', nn') \<Longrightarrow> counts_shrink nn nn'"
proof (induction "is" arbitrary: nl nn)
  case Nil
  then show ?case by (simp add: counts_shrink_refl)
next
  case (Cons i "is")
  obtain nl1 nn1 where one: "break_item r r0 mx crit i (nl, nn) = (nl1, nn1)"
    by (cases "break_item r r0 mx crit i (nl, nn)")
  with Cons.prems have "fold (break_item r r0 mx crit) is (nl1, nn1) = (nl', nn')" by simp
  from Cons.IH[OF this] break_item_shrink[OF one] show ?case
    by (blast intro: counts_shrink_trans)
qed

lemma break_bonds_cl_shrink:
  "break_bonds_cl g r r0 nl nn mx crit = (nl', nn') \<Longrightarrow> counts_shrink nn nn'"
  unfolding break_bonds_cl_def by (rule break_fold_shrink)

lemma step_body_shrink:
  assumes "break_bonds_kernel m = break_bonds_cl"
    and "a \<in> set (step_body m integ bf wr wp t)" and "a s = Inr s'"
  shows "family_d s' = family_d s \<and> h_n_neigh s' = h_n_neigh s
       \<and> counts_shrink (n_neigh_d s) (n_neigh_d s')"
proof -
  from assms(2) consider "a = do_bond_force m" | "a = do_copy_force" | "a = do_integrate integ"
    | "a = do_boundary m bf t" | "a = do_refresh m" | "a = do_break_bonds m" | "a = do_damage m"
    | "a = do_write wr wp t"
    by (auto simp: step_body_def)
  then show ?thesis
  proof cases
    case 6
    obtain nl nn where k: "ModelCL_break_bonds m (r_d s) (r0_d s) (nlist_d s) (n_neigh_d s)
             (max_neighbours m) (critical_strain m) = (nl, nn)"
      by (cases "ModelCL_break_bonds m (r_d s) (r0_d s) (nlist_d s) (n_neigh_d s)
             (max_neighbours m) (critical_strain m)")
    with assms(1) have "counts_shrink (n_neigh_d s) nn"
      by (auto simp: ModelCL_break_bonds_def dest: break_bonds_cl_shrink)
    with 6 k assms(3) show ?thesis by (auto simp: do_break_bonds_def)
  next
    case 5
    with assms(3) show ?thesis
      by (auto simp: do_refresh_def counts_shrink_refl split: sum.splits)
  next
    case 8
    with assms(3) show ?thesis
      by (auto simp: do_write_exec snapshot_def write_mesh_def Let_def counts_shrink_refl
          split: if_splits)
  qed (use assms(3) in \<open>auto simp: do_bond_force_def do_copy_force_def do_integrate_def
        do_boundary_def do_damage_def counts_shrink_refl\<close>)
qed

lemma trajectory_first: "trajectory as s ! 0 = s"
  by (cases as) simp_all

lemma trajectory_reach:
  assumes rf: "reflp R" and tr: "transp R"
  shows "\<forall>a\<in>set as. \<forall>s s'. a s = Inr s' \<longrightarrow> R s s' \<Longrightarrow> s' \<in> set (trajectory as s) \<Longrightarrow> R s s'"
proof (induction as arbitrary: s)
  case Nil
  then show ?case using rf by (simp add: reflpD)
next
  case (Cons a as)
  show ?case
  proof (cases "s' = s")
    case True
    then show ?thesis using rf by (simp add: reflpD)
  next
    case False
    show ?thesis
    proof (cases "a s")
      case (Inl e)
      with Cons.prems(2) False show ?thesis by simp
    next
      case (Inr s1)
      with Cons.prems(2) False have mem: "s' \<in> set (trajectory as s1)" by simp
      have "R s s1" using Cons.prems(1) Inr by simp
      moreover have "R s1 s'" using Cons.IH[OF _ mem] Cons.prems(1) by simp
      ultimately show ?thesis using tr by (blast dest: transpD)
    qed
  qed
qed

lemma trajectory_pairs:
  assumes rf: "reflp R" and tr: "transp R"
  shows "\<forall>a\<in>set as. \<forall>s s'. a s = Inr s' \<longrightarrow> R s s' \<Longrightarrow> i \<le> j
     \<Longrightarrow> j < length (trajectory as s) \<Longrightarrow> R (trajectory as s ! i) (trajectory as s ! j)"
proof (induction as arbitrary: s i j)
  case Nil
  then show ?case using rf by (simp add: reflpD)
next
  case (Cons a as)
  show ?case
  proof (cases i)
    case 0
    have "trajectory (a # as) s ! j \<in> set (trajectory (a # as) s)"
      using Cons.prems(3) by (rule nth_mem)
    with trajectory_reach[OF rf tr Cons.prems(1)]
    have "R s (trajectory (a # as) s ! j)" .
    with 0 show ?thesis by simp
  next
    case (Suc i')
    with Cons.prems(2) obtain j' where j': "j = Suc j'" "i' \<le> j'" by (cases j) auto
    show ?thesis
    proof (cases "a s")
      case (Inl e)
      with Cons.prems(3) j' show ?thesis by simp
    next
      case (Inr s1)
      with Cons.prems(3) j' have len: "j' < length (trajectory as s1)" by simp
      have "R (trajectory as s1 ! i') (trajectory as s1 ! j')"
        using Cons.IH[OF _ j'(2) len] Cons.prems(1) by simp
      with Suc j' Inr show ?thesis by simp
    qed
  qed
qed

lemma trajectory_invariant:
  "\<forall>a\<in>set as. \<forall>s s'. I s \<and> a s = Inr s' \<longrightarrow> I s' \<Longrightarrow> I s \<Longrightarrow> s' \<in> set (trajectory as s) \<Longrightarrow> I s'"
proof (induction as arbitrary: s)
  case Nil
  then show ?case by simp
next
  case (Cons a as)
  show ?case
  proof (cases "s' = s")
    case True
    with Cons.prems(2) show ?thesis by simp
  next
    case False
    show ?thesis
    proof (cases "a s")
      case (Inl e)
      with Cons.prems(3) False show ?thesis by simp
    next
      case (Inr s1)
      with Cons.prems(3) False have mem: "s' \<in> set (trajectory as s1)" by simp
      have head: "\<forall>s s'. I s \<and> a s = Inr s' \<longrightarrow> I s'"
        and rest: "\<forall>b\<in>set as. \<forall>s s'. I s \<and> b s = Inr s' \<longrightarrow> I s'"
        using Cons.prems(1) by (blast intro: list.set_intros)+
      from head Cons.prems(2) Inr have "I s1" by blast
      with rest show ?thesis using mem by (rule Cons.IH)
    qed
  qed
qed

lemma state_shrinks_refl: "reflp state_shrinks"
  by (rule reflpI) (simp add: state_shrinks_def counts_shrink_refl)

lemma state_shrinks_trans: "transp state_shrinks"
proof (rule transpI)
  fix a b c assume "state_shrinks a b" "state_shrinks b c"
  then have "family_d b = family_d a" "family_d c = family_d b"
    "counts_shrink (n_neigh_d a) (n_neigh_d b)" "counts_shrink (n_neigh_d b) (n_neigh_d c)"
    by (simp_all add: state_shrinks_def)
  then show "state_shrinks a c"
    using counts_shrink_trans[of "n_neigh_d a" "n_neigh_d b" "n_neigh_d c"]
    by (simp add: state_shrinks_def)
qed

lemma program_shrinks:
  assumes "break_bonds_kernel m = break_bonds_cl"
    and "a \<in> set (step_loop m integ bf wr wp first_step steps @ final_copies)"
    and "a s = Inr s'"
  shows "state_shrinks s s' \<and> (h_n_neigh s' = h_n_neigh s \<or> h_n_neigh s' = n_neigh_d s)"
proof (cases "a \<in> set final_copies")
  case True
  with assms(3) show ?thesis
    by (auto simp: final_copies_def copy_damage_def copy_nlist_def copy_n_neigh_def
        state_shrinks_def counts_shrink_refl)
next
  case False
  with assms(2) obtain t where "a \<in> set (step_body m integ bf wr wp t)"
    by (auto simp: step_loop_def)
  from step_body_shrink[OF assms(1) this assms(3)] show ?thesis
    by (simp add: state_shrinks_def)
qed

lemma program_keeps_ok:
  assumes "break_bonds_kernel m = break_bonds_cl"
    and "a \<in> set (step_loop m integ bf wr wp first_step steps @ final_copies)"
    and "state_ok m s" and "a s = Inr s'"
  shows "state_ok m s'"
proof -
  from program_shrinks[OF assms(1,2,4)] have
    sh: "family_d s' = family_d s" "counts_shrink (n_neigh_d s) (n_neigh_d s')"
    and host: "h_n_neigh s' = h_n_neigh s \<or> h_n_neigh s' = n_neigh_d s"
    by (simp_all add: state_shrinks_def)
  from assms(3)[unfolded state_ok_def] have ok: "family_d s = family m"
    "counts_ok (max_neighbours m) (n_neigh_d s) (family_d s)"
    "counts_ok (max_neighbours m) (h_n_neigh s) (family_d s)"
    by blast+
  have fam: "family_d s' = family m" using sh(1) ok(1) by (rule trans)
  have dev: "counts_ok (max_neighbours m) (n_neigh_d s') (family_d s)"
    using ok(2) sh(2) by (rule counts_ok_shrink)
  have hst: "counts_ok (max_neighbours m) (h_n_neigh s') (family_d s)"
    using host ok(2,3) by (elim disjE) simp_all
  show ?thesis
    unfolding state_ok_def sh(1) using ok(1) dev hst by (intro conjI)
qed

lemma trajectory_exec:
  "exec as s = Inr s' \<Longrightarrow> length (trajectory as s) = Suc (length as) \<and> last (trajectory as s) = s'"
proof (induction as arbitrary: s)
  case Nil
  then show ?case by simp
next
  case (Cons a as)
  then obtain s1 where s1: "a s = Inr s1" "exec as s1 = Inr s'"
    by (auto split: sum.splits)
  from Cons.IH[OF s1(2)] s1(1) show ?case by (cases as) (auto split: sum.splits)
qed

lemma simulate_states_last:
  assumes "simulate_run m mem steps integ bf u0 conn first_step wr wp = Inr fin"
  shows "fin \<in> set (simulate_states m mem steps integ bf u0 conn first_step wr wp)"
proof -
  obtain nl nn u' bf' wp' where ini: "simulate_initialise m integ bf u0 conn wp = (nl, nn, u', bf', wp')"
    by (metis prod_cases5)
  with assms obtain s0 where s0: "init_state m mem nl nn u' = Inr s0"
    and ex: "exec (step_loop m integ bf' wr wp' first_step steps @ final_copies) s0 = Inr fin"
    by (auto simp: simulate_run_def split: sum.splits)
  from trajectory_exec[OF ex] have
    "last (trajectory (step_loop m integ bf' wr wp' first_step steps @ final_copies) s0) = fin"
    "trajectory (step_loop m integ bf' wr wp' first_step steps @ final_copies) s0 \<noteq> []"
    by auto
  then have "fin \<in> set (trajectory (step_loop m integ bf' wr wp' first_step steps @ final_copies) s0)"
    using last_in_set by metis
  with ini s0 show ?thesis by (simp add: simulate_states_def)
qed

lemma damage_returned_without_steps:
  assumes "ModelCL_simulate m mem 0 integ bf u0 conn first_step wr wp = Inr (u, d, c)"
  shows "d = np_empty (fresh_damage_d mem)
               (length (snd (case conn of None \<Rightarrow> initial_connectivity m | Some c \<Rightarrow> c)))"
  using assms
  by (auto simp: ModelCL_simulate_def simulate_run_def simulate_initialise_def Let_def init_state_def
      step_loop_def py_range_def final_copies_exec returned_def split: sum.splits prod.splits)

section \<open>The data carried by the events\<close>






section \<open>The damage kernel\<close>

lemma damage_fold_nth:
  "g \<le> length dmg \<Longrightarrow>
     length (fold (damage_item nn fam) [0..<g] dmg) = length dmg
   \<and> (\<forall>i<g. fold (damage_item nn fam) [0..<g] dmg ! i
          = (if fam ! i = 0 then 0 else real_of_int (fam ! i - nn ! i) / real_of_int (fam ! i)))
   \<and> (\<forall>i. g \<le> i \<longrightarrow> fold (damage_item nn fam) [0..<g] dmg ! i = dmg ! i)"
proof (induction g)
  case 0
  then show ?case by simp
next
  case (Suc g)
  let ?mid = "fold (damage_item nn fam) [0..<g] dmg"
  from Suc have len: "length ?mid = length dmg"
    and low: "\<forall>i<g. ?mid ! i
          = (if fam ! i = 0 then 0 else real_of_int (fam ! i - nn ! i) / real_of_int (fam ! i))"
    and high: "\<forall>i. g \<le> i \<longrightarrow> ?mid ! i = dmg ! i"
    by simp_all
  have res: "fold (damage_item nn fam) [0..<Suc g] dmg
      = ?mid[g := (if fam ! g = 0 then 0 else real_of_int (fam ! g - nn ! g) / real_of_int (fam ! g))]"
    by (simp add: damage_item_def)
  have "\<forall>i<Suc g. fold (damage_item nn fam) [0..<Suc g] dmg ! i
          = (if fam ! i = 0 then 0 else real_of_int (fam ! i - nn ! i) / real_of_int (fam ! i))"
  proof (intro allI impI)
    fix i assume i: "i < Suc g"
    show "fold (damage_item nn fam) [0..<Suc g] dmg ! i
          = (if fam ! i = 0 then 0 else real_of_int (fam ! i - nn ! i) / real_of_int (fam ! i))"
    proof (cases "i = g")
      case True
      with Suc.prems len show ?thesis unfolding res by simp
    next
      case False
      with i low show ?thesis unfolding res by simp
    qed
  qed
  moreover have "\<forall>i. Suc g \<le> i \<longrightarrow> fold (damage_item nn fam) [0..<Suc g] dmg ! i = dmg ! i"
    using high unfolding res by simp
  moreover have "length (fold (damage_item nn fam) [0..<Suc g] dmg) = length dmg"
    using len unfolding res by simp
  ultimately show ?case by blast
qed

lemma damage_value_bounds:
  fixes n f :: int
  assumes "0 \<le> n" "n \<le> f"
  shows "0 \<le> (if f = 0 then 0 else real_of_int (f - n) / real_of_int f)"
    and "(if f = 0 then 0 else real_of_int (f - n) / real_of_int f) \<le> 1"
    and "(if f = 0 then 0 else real_of_int (f - n) / real_of_int f) = 0 \<longleftrightarrow> n = f"
  using assms by (auto simp: divide_le_eq)

lemma damage_cl_bounds:
  assumes "counts_ok cap nn fam" and "g \<le> length dmg" and "i < g" and "i < length nn"
  shows "0 \<le> damage_cl g nn fam dmg ! i \<and> damage_cl g nn fam dmg ! i \<le> 1
       \<and> (damage_cl g nn fam dmg ! i = 0 \<longleftrightarrow> nn ! i = fam ! i)"
proof -
  from assms(1,4) have b: "0 \<le> nn ! i" "nn ! i \<le> fam ! i"
    by (auto simp: counts_ok_def list_all2_conv_all_nth)
  from damage_fold_nth[OF assms(2), of nn fam] assms(3) have
    "damage_cl g nn fam dmg ! i
       = (if fam ! i = 0 then 0 else real_of_int (fam ! i - nn ! i) / real_of_int (fam ! i))"
    by (simp add: damage_cl_def)
  with damage_value_bounds[OF b] show ?thesis by simp
qed

lemma step_body_damage:
  assumes "damage_kernel m = damage_cl"
    and "exec (step_body m integ bf wr wp t) s = Inr s'"
  shows "damage_d s' = damage_cl (nnodes m) (n_neigh_d s') (family_d s') (damage_d s)"
  using assms
  by (auto simp: step_body_def do_bond_force_def do_copy_force_def do_integrate_def
        do_boundary_def do_refresh_def do_break_bonds_def do_damage_def do_write_exec
        snapshot_def write_mesh_def Let_def ModelCL_damage_def
      split: prod.splits sum.splits)

lemma damage_cl_length: "g \<le> length dmg \<Longrightarrow> length (damage_cl g nn fam dmg) = length dmg"
  using damage_fold_nth[of g dmg nn fam] by (simp add: damage_cl_def)

lemma step_loop_damage:
  assumes "damage_kernel m = damage_cl"
  shows "ts \<noteq> [] \<Longrightarrow> nnodes m \<le> length (damage_d s)
     \<Longrightarrow> exec (concat (map (step_body m integ bf wr wp) ts)) s = Inr s'
     \<Longrightarrow> \<exists>prev. nnodes m \<le> length prev
           \<and> damage_d s' = damage_cl (nnodes m) (n_neigh_d s') (family_d s') prev"
proof (induction ts arbitrary: s)
  case Nil
  then show ?case by simp
next
  case (Cons t ts)
  from Cons.prems(3) obtain s1 where s1: "exec (step_body m integ bf wr wp t) s = Inr s1"
    and rest: "exec (concat (map (step_body m integ bf wr wp) ts)) s1 = Inr s'"
    by (auto simp: exec_append split: sum.splits)
  note d1 = step_body_damage[OF assms s1]
  show ?case
  proof (cases "ts = []")
    case True
    with rest have "s' = s1" by simp
    with d1 Cons.prems(2) show ?thesis by blast
  next
    case False
    from d1 Cons.prems(2) have "nnodes m \<le> length (damage_d s1)"
      by (simp add: damage_cl_length)
    from Cons.IH[OF False this rest] show ?thesis .
  qed
qed

lemma step_loop_keeps_ok:
  assumes "break_bonds_kernel m = break_bonds_cl"
  shows "state_ok m s \<Longrightarrow> exec (concat (map (step_body m integ bf wr wp) ts)) s = Inr s'
     \<Longrightarrow> state_ok m s'"
proof -
  assume ok: "state_ok m s" and ex: "exec (concat (map (step_body m integ bf wr wp) ts)) s = Inr s'"
  let ?prog = "concat (map (step_body m integ bf wr wp) ts)"
  have keep: "\<forall>a\<in>set ?prog. \<forall>s s'. state_ok m s \<and> a s = Inr s' \<longrightarrow> state_ok m s'"
  proof (intro ballI allI impI)
    fix a s s' assume mem: "a \<in> set ?prog" and "state_ok m s \<and> a s = Inr s'"
    then have pre: "state_ok m s" and run: "a s = Inr s'" by simp_all
    from mem obtain t where "a \<in> set (step_body m integ bf wr wp t)" by auto
    from step_body_shrink[OF assms this run] have
      sh: "family_d s' = family_d s" "h_n_neigh s' = h_n_neigh s"
        "counts_shrink (n_neigh_d s) (n_neigh_d s')"
      by simp_all
    from pre[unfolded state_ok_def] have ok: "family_d s = family m"
      "counts_ok (max_neighbours m) (n_neigh_d s) (family_d s)"
      "counts_ok (max_neighbours m) (h_n_neigh s) (family_d s)"
      by blast+
    have "counts_ok (max_neighbours m) (n_neigh_d s') (family_d s)"
      using ok(2) sh(3) by (rule counts_ok_shrink)
    with ok sh(1,2) show "state_ok m s'" unfolding state_ok_def by simp
  qed
  from trajectory_exec[OF ex] have "last (trajectory ?prog s) = s'" "trajectory ?prog s \<noteq> []"
    by auto
  then have "s' \<in> set (trajectory ?prog s)" using last_in_set by metis
  with keep ok show "state_ok m s'" by (rule trajectory_invariant[where I = "state_ok m"])
qed

lemma damage_after_steps:
  assumes "break_bonds_kernel m = break_bonds_cl" and "damage_kernel m = damage_cl"
    and "counts_ok (max_neighbours m)
           (snd (case conn of None \<Rightarrow> initial_connectivity m | Some c \<Rightarrow> c)) (family m)"
    and "nnodes m = length (family m)" and "0 < steps"
    and "ModelCL_simulate m mem steps integ bf u0 conn first_step wr wp = Inr (u, d, (nl, nn))"
    and "i < nnodes m"
  shows "0 \<le> d ! i \<and> d ! i \<le> 1 \<and> (d ! i = 0 \<longleftrightarrow> nn ! i = family m ! i)"
proof -
  from assms(6) obtain fin where fin: "simulate_run m mem steps integ bf u0 conn first_step wr wp = Inr fin"
    and ret: "returned fin = (u, d, (nl, nn))"
    by (auto simp: ModelCL_simulate_def split: sum.splits)
  from simulate_run_split[OF fin] obtain nl0 nn0 s0 s1 where
    s0: "init_state m mem nl0 nn0 (case u0 of None \<Rightarrow> replicate (nnodes m) (0, 0, 0) | Some v \<Rightarrow> v) = Inr s0"
    and c0: "(nl0, nn0) = (case conn of None \<Rightarrow> initial_connectivity m | Some c \<Rightarrow> c)"
    and loop: "exec (concat (map (step_body m integ (case bf of None \<Rightarrow> (\<lambda>_ u _. u) | Some g \<Rightarrow> g) wr
                                 (case wp of None \<Rightarrow> [] | Some p \<Rightarrow> p))
                            (py_range first_step (first_step + steps)))) s0 = Inr s1"
    and f: "fin = s1\<lparr> h_damage := damage_d s1, h_nlist := nlist_d s1, h_n_neigh := n_neigh_d s1,
                      trace := trace s1 @ [CopyDamage, CopyNlist, CopyNNeigh] \<rparr>"
    by blast
  from c0 have nn0: "nn0 = snd (case conn of None \<Rightarrow> initial_connectivity m | Some c \<Rightarrow> c)"
    by (metis snd_conv)
  from ret f have d: "d = damage_d s1" and nn: "nn = n_neigh_d s1"
    by (simp_all add: returned_def)
  note fresh = init_state_fresh[OF s0]
  from assms(3) nn0 have ok_nn0: "counts_ok (max_neighbours m) nn0 (family m)" by simp
  then have len0: "length nn0 = length (family m)"
    by (simp add: counts_ok_def list_all2_lengthD)
  from fresh ok_nn0 have ok0: "state_ok m s0" by (simp add: state_ok_def)
  from step_loop_keeps_ok[OF assms(1) ok0 loop] have ok1: "state_ok m s1" .
  then have fam1: "family_d s1 = family m"
    and cnt1': "counts_ok (max_neighbours m) (n_neigh_d s1) (family_d s1)"
    unfolding state_ok_def by blast+
  then have cnt1: "counts_ok (max_neighbours m) (n_neigh_d s1) (family m)" by simp
  from cnt1 have len1: "length (n_neigh_d s1) = length (family m)"
    by (simp add: counts_ok_def list_all2_lengthD)
  from s0 have "length (damage_d s0) = length nn0"
    by (auto simp: init_state_def np_empty_def split: sum.splits)
  with len0 assms(4) have dlen: "nnodes m \<le> length (damage_d s0)" by simp
  from assms(5) have ne: "py_range first_step (first_step + steps) \<noteq> []"
    by (simp add: py_range_def)
  from step_loop_damage[OF assms(2) ne dlen loop] obtain prev where
    prev: "nnodes m \<le> length prev"
      "damage_d s1 = damage_cl (nnodes m) (n_neigh_d s1) (family_d s1) prev"
    by blast
  from assms(7) assms(4) len1 have i: "i < length (n_neigh_d s1)" by simp
  from damage_cl_bounds[OF cnt1 prev(1) assms(7) i] prev(2) fam1 d nn show ?thesis by simp
qed

section \<open>The effect of a step on the state\<close>




lemma follow_length: "length (follow u f) = length u"
  by (auto simp: follow_def split: list.splits)


section \<open>Claims\<close>

text \<open>
  C8: a supplied context whose device 0 lacks double-precision support makes the
  constructor raise before it returns: some error in every case, and the \<open>ValueError\<close>
  of the capability check whenever the base constructor succeeded and the context has a
  device. \<open>simulate\<close> never raises that error.
\<close>

theorem init_rejects_missing_fp64:
  assumes "\<not> double_fp_support (devs ! 0)"
  shows "(\<exists>e. ModelCL_init super_init get_context double_fp_support build (Context devs) = Inl e)
       \<and> (super_init = Inr base \<and> devs \<noteq> [] \<longrightarrow>
             ModelCL_init super_init get_context double_fp_support build (Context devs)
               = Inl (ValueError fp64_message))
       \<and> simulate_run m mem steps integ bf u0 conn first_step wr wp \<noteq> Inl (ValueError fp64_message)"
proof -
  have "fp64_message \<noteq> broadcast_message"
    by (simp add: fp64_message_def broadcast_message_def)
  then have "simulate_run m mem steps integ bf u0 conn first_step wr wp \<noteq> Inl (ValueError fp64_message)"
    by (auto dest: simulate_run_error)
  moreover from assms have
    "\<exists>e. ModelCL_init super_init get_context double_fp_support build (Context devs) = Inl e"
    by (auto simp: ModelCL_init_def split: sum.splits list.splits)
  moreover from assms have "super_init = Inr base \<and> devs \<noteq> [] \<longrightarrow>
             ModelCL_init super_init get_context double_fp_support build (Context devs)
               = Inl (ValueError fp64_message)"
    by (auto simp: ModelCL_init_def split: list.splits)
  ultimately show ?thesis by blast
qed

theorem init_rejects_missing_fp64_witness:
  "\<not> (\<lambda>d. d) ([False] ! 0)
   \<and> ModelCL_init (Inr (model.truncate two_nodes)) PyNone (\<lambda>d. d) (\<lambda>_. Inl (Raised ''build''))
        (Context [False]) = Inl (ValueError fp64_message)"
  using init_rejects_missing_fp64[of "\<lambda>d. d" "[False]" "Inr (model.truncate two_nodes)" PyNone
      "\<lambda>_. Inl (Raised ''build'')" "model.truncate two_nodes"
      two_nodes mem7 0 pull None None None 1 None None]
  by simp



text \<open>
  C2: in a run that returns, whatever the write interval and whether or not the loop ran,
  the last three events are the copies of the damage, neighbour-list and active-count
  buffers to the host; the two connectivity copies happen nowhere else, and what precedes
  the damage copy is the end of the last step (or nothing, when \<open>steps \<le> 0\<close>). The host
  arrays then equal the device buffers, and the value returned is the displacement, the
  damage and the pair of neighbour list and active counts.
\<close>

theorem final_synchronisation:
  assumes "simulate_run m mem steps integ bf u0 conn first_step wr wp = Inr fin"
  shows "\<exists>pre. trace fin = pre @ [CopyDamage, CopyNlist, CopyNNeigh]
           \<and> CopyNlist \<notin> set pre \<and> CopyNNeigh \<notin> set pre
           \<and> (pre = [] \<or> last pre = Damage \<or> (\<exists>p. last pre = WriteMesh p))
           \<and> (steps \<le> 0 \<longrightarrow> pre = [])
           \<and> h_damage fin = damage_d fin \<and> h_nlist fin = nlist_d fin \<and> h_n_neigh fin = n_neigh_d fin
           \<and> ModelCL_simulate m mem steps integ bf u0 conn first_step wr wp
               = Inr (h_u fin, h_damage fin, (h_nlist fin, h_n_neigh fin))"
proof -
  from simulate_run_split[OF assms] obtain nl nn s0 s1 where
    s0: "init_state m mem nl nn (case u0 of None \<Rightarrow> replicate (nnodes m) (0, 0, 0) | Some v \<Rightarrow> v) = Inr s0"
    and loop: "exec (concat (map (step_body m integ (case bf of None \<Rightarrow> (\<lambda>_ u _. u) | Some g \<Rightarrow> g) wr
                                 (case wp of None \<Rightarrow> [] | Some p \<Rightarrow> p))
                            (py_range first_step (first_step + steps)))) s0 = Inr s1"
    and fin: "fin = s1\<lparr> h_damage := damage_d s1, h_nlist := nlist_d s1, h_n_neigh := n_neigh_d s1,
                      trace := trace s1 @ [CopyDamage, CopyNlist, CopyNNeigh] \<rparr>"
    by blast
  from step_loop_trace[OF loop] obtain segs where
    tr: "trace s1 = trace s0 @ concat segs"
    and segs: "list_all2 (step_segment m integ (case bf of None \<Rightarrow> (\<lambda>_ u _. u) | Some g \<Rightarrow> g) wr
                   (case wp of None \<Rightarrow> [] | Some p \<Rightarrow> p))
                (py_range first_step (first_step + steps)) segs"
    by blast
  have empty: "steps \<le> 0 \<longrightarrow> concat segs = []"
    using segs by (auto simp: py_range_nonpos)
  have tr': "trace fin = concat segs @ [CopyDamage, CopyNlist, CopyNNeigh]"
    using tr fin init_state_fresh[OF s0] by simp
  have sync: "h_damage fin = damage_d fin \<and> h_nlist fin = nlist_d fin \<and> h_n_neigh fin = n_neigh_d fin"
    using fin by simp
  have ret: "ModelCL_simulate m mem steps integ bf u0 conn first_step wr wp
               = Inr (h_u fin, h_damage fin, (h_nlist fin, h_n_neigh fin))"
    using assms by (simp add: ModelCL_simulate_def returned_def)
  from segments_shape[OF segs] empty tr' sync ret show ?thesis by blast
qed

theorem final_synchronisation_witness:
  "\<exists>fin pre. simulate_run two_nodes mem7 2 pull None None None 1 (Some 2) (Some [''out'']) = Inr fin
      \<and> trace fin = pre @ [CopyDamage, CopyNlist, CopyNNeigh]
      \<and> CopyNlist \<notin> set pre \<and> CopyNNeigh \<notin> set pre
      \<and> ModelCL_simulate two_nodes mem7 2 pull None None None 1 (Some 2) (Some [''out''])
          = Inr (h_u fin, damage_d fin, (nlist_d fin, n_neigh_d fin))"
proof -
  from two_nodes_run obtain fin where
    fin: "simulate_run two_nodes mem7 2 pull None None None 1 (Some 2) (Some [''out'']) = Inr fin"
    by blast
  from final_synchronisation[OF fin] fin show ?thesis
    by auto
qed

text \<open>
  C4: a run with \<open>steps = 0\<close> that is given a connectivity pair returns that pair,
  element for element; this holds for every pair, so in particular for one returned by
  an earlier run.
\<close>

theorem connectivity_round_trip:
  assumes "np_add (coords m) (case u0 of None \<Rightarrow> replicate (nnodes m) (0, 0, 0) | Some v \<Rightarrow> v) = Inr r"
  shows "\<exists>u d. ModelCL_simulate m mem 0 integ bf u0 (Some (nl, nn)) first_step wr wp
                 = Inr (u, d, (nl, nn))"
proof -
  obtain u' bf' wp' where ini:
    "simulate_initialise m integ bf u0 (Some (nl, nn)) wp = (nl, nn, u', bf', wp')"
    and u': "u' = (case u0 of None \<Rightarrow> replicate (nnodes m) (0, 0, 0) | Some v \<Rightarrow> v)"
    by (simp add: simulate_initialise_def Let_def)
  from assms u' obtain s0 where s0: "init_state m mem nl nn u' = Inr s0"
    and s0c: "nlist_d s0 = nl" "n_neigh_d s0 = nn"
    by (auto simp: init_state_def)
  from simulate_run_zero[OF ini s0] s0c show ?thesis
    by (simp add: ModelCL_simulate_def returned_def)
qed

theorem connectivity_round_trip_witness:
  "np_add (coords two_nodes) [(0, 0, 0), (1, 0, 0)] = Inr [(0, 0, 0), (2, 0, 0)]
   \<and> (\<exists>u d. ModelCL_simulate two_nodes mem7 0 pull None (Some [(0, 0, 0), (1, 0, 0)])
                (Some ([[1], [0]], [0, 0])) 2 None None = Inr (u, d, ([[1], [0]], [0, 0])))"
proof -
  have h: "np_add (coords two_nodes) (case Some [(0, 0, 0), (1, 0, 0)] of
              None \<Rightarrow> replicate (nnodes two_nodes) (0, 0, 0) | Some v \<Rightarrow> v)
             = Inr [(0, 0, 0), (2, 0, 0)]"
    by (simp add: two_nodes_def np_add_def vadd_def)
  from connectivity_round_trip[OF h, of mem7 pull None "[[1], [0]]" "[0, 0]" 2 None None] h
  show ?thesis by simp
qed

text \<open>
  C9: with \<open>steps = 0\<close>, and an initial displacement that can be added to the
  coordinates, the run returns; its only events are the three final copies (no kernel, no
  integrator call, no boundary function call), no file is written, and the displacement
  returned is the one supplied, or zeros for each node when none is supplied.
\<close>

theorem simulate_zero_steps:
  assumes "np_add (coords m) (case u0 of None \<Rightarrow> replicate (nnodes m) (0, 0, 0) | Some v \<Rightarrow> v) = Inr r"
  shows "\<exists>fin. simulate_run m mem 0 integ bf u0 conn first_step wr wp = Inr fin
           \<and> trace fin = [CopyDamage, CopyNlist, CopyNNeigh]
           \<and> files fin = []
           \<and> h_u fin = (case u0 of None \<Rightarrow> replicate (nnodes m) (0, 0, 0) | Some v \<Rightarrow> v)
           \<and> ModelCL_simulate m mem 0 integ bf u0 conn first_step wr wp = Inr (returned fin)
           \<and> fst (returned fin) = (case u0 of None \<Rightarrow> replicate (nnodes m) (0, 0, 0) | Some v \<Rightarrow> v)"
proof -
  obtain nl nn u' bf' wp' where ini: "simulate_initialise m integ bf u0 conn wp = (nl, nn, u', bf', wp')"
    by (metis prod_cases5)
  then have u': "u' = (case u0 of None \<Rightarrow> replicate (nnodes m) (0, 0, 0) | Some v \<Rightarrow> v)"
    by (auto simp: simulate_initialise_def Let_def split: prod.splits)
  from assms u' obtain s0 where s0: "init_state m mem nl nn u' = Inr s0"
    and s0u: "h_u s0 = u'" "trace s0 = []" "files s0 = []"
    by (auto simp: init_state_def)
  from simulate_run_zero[OF ini s0] s0u u' show ?thesis
    by (simp add: ModelCL_simulate_def returned_def)
qed

theorem simulate_zero_steps_witness:
  "np_add (coords two_nodes) (replicate (nnodes two_nodes) (0, 0, 0)) = Inr [(0, 0, 0), (1, 0, 0)]
   \<and> (\<exists>fin. simulate_run two_nodes mem7 0 pull None None None 1 None None = Inr fin
           \<and> trace fin = [CopyDamage, CopyNlist, CopyNNeigh]
           \<and> h_u fin = [(0, 0, 0), (0, 0, 0)])"
proof -
  have h: "np_add (coords two_nodes) (case None of None \<Rightarrow> replicate (nnodes two_nodes) (0, 0, 0) | Some v \<Rightarrow> v)
             = Inr [(0, 0, 0), (1, 0, 0)]"
    by (simp add: two_nodes_def np_add_def vadd_def numeral_2_eq_2)
  from simulate_zero_steps[OF h, of mem7 pull None None 1 None None] h show ?thesis
    by (auto simp: two_nodes_def numeral_2_eq_2)
qed



text \<open>
  C10: a run with \<open>write = 0\<close> is the same run as with \<open>write = None\<close>: the same final
  state or the same error, and the same returned value. It never raises
  \<open>ZeroDivisionError\<close>, and it writes no mesh file.
\<close>

theorem write_zero_disables_snapshots:
  "simulate_run m mem steps integ bf u0 conn first_step (Some 0) wp
     = simulate_run m mem steps integ bf u0 conn first_step None wp
   \<and> ModelCL_simulate m mem steps integ bf u0 conn first_step (Some 0) wp
     = ModelCL_simulate m mem steps integ bf u0 conn first_step None wp
   \<and> simulate_run m mem steps integ bf u0 conn first_step (Some 0) wp \<noteq> Inl ZeroDivisionError
   \<and> (\<forall>fin. simulate_run m mem steps integ bf u0 conn first_step (Some 0) wp = Inr fin
         \<longrightarrow> files fin = [])"
proof -
  have "do_write (Some 0) = do_write None"
    by (simp add: do_write_def fun_eq_iff)
  then have "step_body m integ bf' (Some 0) wp' = step_body m integ bf' None wp'" for bf' wp'
    by (simp add: step_body_def fun_eq_iff)
  then have loop: "step_loop m integ bf' (Some 0) wp' first_step steps
               = step_loop m integ bf' None wp' first_step steps" for bf' wp'
    unfolding step_loop_def by simp
  have eq: "simulate_run m mem steps integ bf u0 conn first_step (Some 0) wp
     = simulate_run m mem steps integ bf u0 conn first_step None wp"
    by (simp add: simulate_run_def loop split: prod.splits sum.splits)
  then have eq': "ModelCL_simulate m mem steps integ bf u0 conn first_step (Some 0) wp
     = ModelCL_simulate m mem steps integ bf u0 conn first_step None wp"
    by (simp add: ModelCL_simulate_def)
  have ne: "simulate_run m mem steps integ bf u0 conn first_step (Some 0) wp \<noteq> Inl ZeroDivisionError"
    by (auto dest: simulate_run_error)
  have "files fin = []"
    if "simulate_run m mem steps integ bf u0 conn first_step (Some 0) wp = Inr fin" for fin
    using simulate_run_files[OF that] by (simp add: writes_def)
  with eq eq' ne show ?thesis by blast
qed

theorem write_zero_disables_snapshots_witness:
  "\<exists>fin. simulate_run two_nodes mem7 2 pull None None None 1 (Some 0) (Some [''out'']) = Inr fin
      \<and> simulate_run two_nodes mem7 2 pull None None None 1 None (Some [''out'']) = Inr fin
      \<and> files fin = []"
proof -
  have "\<exists>fin. simulate_run two_nodes mem7 2 pull None None None 1 (Some 0) (Some [''out'']) = Inr fin"
    by (rule simulate_run_total) (simp_all add: pull_length two_nodes_def)
  then obtain fin where
    fin: "simulate_run two_nodes mem7 2 pull None None None 1 (Some 0) (Some [''out'']) = Inr fin"
    by blast
  note th = write_zero_disables_snapshots[of two_nodes mem7 2 pull None None None 1 "Some [''out'']"]
  from th fin have a: "simulate_run two_nodes mem7 2 pull None None None 1 None (Some [''out'']) = Inr fin"
    by simp
  from th fin have b: "files fin = []" by blast
  from fin a b show ?thesis by blast
qed

text \<open>
  C5: for the breaking kernel as the spec describes it, dispatched by \<open>_break_bonds\<close> on
  buffers that hold a row and a count for every work item: a second invocation with the
  same coordinates, on the neighbour list and counts that the first one produced, returns
  exactly that neighbour list and those counts, so it breaks no further bond.
\<close>

theorem break_bonds_idempotent:
  assumes "break_bonds_kernel m = break_bonds_cl"
    and "nnodes m \<le> length nl" and "nnodes m \<le> length nn"
    and "ModelCL_break_bonds m r r0 nl nn mx crit = (nl', nn')"
  shows "ModelCL_break_bonds m r r0 nl' nn' mx crit = (nl', nn')"
  using assms break_bonds_cl_idem[of "nnodes m" nl nn r r0 mx crit nl' nn']
  by (simp add: ModelCL_break_bonds_def)

theorem break_bonds_idempotent_witness:
  "break_bonds_kernel two_nodes = break_bonds_cl
   \<and> nnodes two_nodes \<le> length [[1], [0::int]] \<and> nnodes two_nodes \<le> length [1, 1::int]
   \<and> ModelCL_break_bonds two_nodes [(0, 0, 0), (2, 0, 0)] [(0, 0, 0), (1, 0, 0)] [[1], [0]] [1, 1] 1 (1 / 2)
       = ([[1], [0]], [0, 0])
   \<and> ModelCL_break_bonds two_nodes [(0, 0, 0), (2, 0, 0)] [(0, 0, 0), (1, 0, 0)] [[1], [0]] [0, 0] 1 (1 / 2)
       = ([[1], [0]], [0, 0])"
proof -
  have k: "break_bonds_kernel two_nodes = break_bonds_cl" by (simp add: two_nodes_def)
  have l1: "nnodes two_nodes \<le> length [[1], [0::int]]" by (simp add: two_nodes_def)
  have l2: "nnodes two_nodes \<le> length [1, 1::int]" by (simp add: two_nodes_def)
  from break_bonds_idempotent[OF k l1 l2 two_nodes_break] k l1 l2 two_nodes_break
  show ?thesis by simp
qed

text \<open>
  C6: for the breaking kernel as the spec describes it, and a run that starts from
  counts with \<open>0 \<le> n_neigh[i] \<le> family[i] \<le> max_neighbours\<close> for every node, every
  state the run passes through (after buffer creation, after each statement of each step,
  after each final copy) satisfies the same bounds on the device and on the host, its
  family buffer is the model's family array, and of any two such states the later one has
  no active count larger than the earlier one.
\<close>

theorem active_counts_invariant:
  assumes "break_bonds_kernel m = break_bonds_cl"
    and "counts_ok (max_neighbours m)
           (snd (case conn of None \<Rightarrow> initial_connectivity m | Some c \<Rightarrow> c)) (family m)"
  shows "(\<forall>s \<in> set (simulate_states m mem steps integ bf u0 conn first_step wr wp). state_ok m s)
       \<and> (\<forall>i j. i \<le> j \<and> j < length (simulate_states m mem steps integ bf u0 conn first_step wr wp)
             \<longrightarrow> state_shrinks (simulate_states m mem steps integ bf u0 conn first_step wr wp ! i)
                               (simulate_states m mem steps integ bf u0 conn first_step wr wp ! j))"
proof -
  obtain nl nn u' bf' wp' where ini: "simulate_initialise m integ bf u0 conn wp = (nl, nn, u', bf', wp')"
    by (metis prod_cases5)
  then have nn: "nn = snd (case conn of None \<Rightarrow> initial_connectivity m | Some c \<Rightarrow> c)"
    by (auto simp: simulate_initialise_def Let_def split: prod.splits)
  show ?thesis
  proof (cases "init_state m mem nl nn u'")
    case (Inl e)
    with ini show ?thesis by (simp add: simulate_states_def)
  next
    case (Inr s0)
    let ?prog = "step_loop m integ bf' wr wp' first_step steps @ final_copies"
    from ini Inr have st: "simulate_states m mem steps integ bf u0 conn first_step wr wp
        = trajectory ?prog s0"
      by (simp add: simulate_states_def)
    from init_state_fresh[OF Inr] assms(2) nn have ok0: "state_ok m s0"
      by (simp add: state_ok_def)
    have keep: "\<forall>a\<in>set ?prog. \<forall>s s'. state_ok m s \<and> a s = Inr s' \<longrightarrow> state_ok m s'"
    proof (intro ballI allI impI)
      fix a s s' assume mem: "a \<in> set ?prog" and "state_ok m s \<and> a s = Inr s'"
      then have "state_ok m s" "a s = Inr s'" by simp_all
      with mem show "state_ok m s'" by (rule program_keeps_ok[OF assms(1)])
    qed
    have shr: "\<forall>a\<in>set ?prog. \<forall>s s'. a s = Inr s' \<longrightarrow> state_shrinks s s'"
    proof (intro ballI allI impI)
      fix a s s' assume "a \<in> set ?prog" "a s = Inr s'"
      then have "state_shrinks s s' \<and> (h_n_neigh s' = h_n_neigh s \<or> h_n_neigh s' = n_neigh_d s)"
        by (rule program_shrinks[OF assms(1)])
      then show "state_shrinks s s'" by simp
    qed
    have a: "\<forall>s \<in> set (trajectory ?prog s0). state_ok m s"
    proof
      fix s assume "s \<in> set (trajectory ?prog s0)"
      with keep ok0 show "state_ok m s" by (rule trajectory_invariant[where I = "state_ok m"])
    qed
    have b: "\<forall>i j. i \<le> j \<and> j < length (trajectory ?prog s0)
               \<longrightarrow> state_shrinks (trajectory ?prog s0 ! i) (trajectory ?prog s0 ! j)"
    proof (intro allI impI)
      fix i j assume "i \<le> j \<and> j < length (trajectory ?prog s0)"
      then have "i \<le> j" "j < length (trajectory ?prog s0)" by simp_all
      with shr show "state_shrinks (trajectory ?prog s0 ! i) (trajectory ?prog s0 ! j)"
        by (rule trajectory_pairs[where R = state_shrinks, OF state_shrinks_refl state_shrinks_trans])
    qed
    from a b show ?thesis unfolding st by (rule conjI)
  qed
qed

theorem active_counts_invariant_witness:
  "break_bonds_kernel two_nodes = break_bonds_cl
   \<and> counts_ok (max_neighbours two_nodes) (snd (initial_connectivity two_nodes)) (family two_nodes)
   \<and> (\<exists>fin. simulate_run two_nodes mem7 2 pull None None None 1 (Some 2) (Some [''out'']) = Inr fin
          \<and> state_ok two_nodes fin)"
proof -
  have k: "break_bonds_kernel two_nodes = break_bonds_cl" by (simp add: two_nodes_def)
  have c: "counts_ok (max_neighbours two_nodes)
             (snd (case None of None \<Rightarrow> initial_connectivity two_nodes | Some c \<Rightarrow> c)) (family two_nodes)"
    by (simp add: two_nodes_def counts_ok_def)
  from two_nodes_run obtain fin where
    fin: "simulate_run two_nodes mem7 2 pull None None None 1 (Some 2) (Some [''out'']) = Inr fin"
    by blast
  from active_counts_invariant[OF k c, of mem7 2 pull None None 1 "Some 2" "Some [''out'']"]
    simulate_states_last[OF fin]
  have "state_ok two_nodes fin" by blast
  with k c fin show ?thesis by auto
qed

text \<open>
  C3: the two-node model run with \<open>steps = 0\<close>, and memory that held the value 7 before
  it was allocated: the damage returned is 7 for each node, although each node has
  \<open>n_neigh = family = 1\<close>. No kernel has written the damage buffer; the value returned
  is the content of the uninitialised buffer.
\<close>

theorem damage_not_computed_without_steps:
  "ModelCL_simulate two_nodes mem7 0 pull None None None 1 None None
     = Inr ([(0, 0, 0), (0, 0, 0)], [7, 7], ([[1], [0]], [1, 1]))"
  by (simp add: ModelCL_simulate_def simulate_run_def simulate_initialise_def two_nodes_def mem7_def
      init_state_def np_add_def np_empty_def step_loop_def py_range_def final_copies_def
      copy_damage_def copy_nlist_def copy_n_neigh_def returned_def vadd_def upt_rec numeral_2_eq_2)

end
